theory Spec2Isabelle
  imports Main "HOL-Library.Word"
begin

unbundle bit_operations_syntax

section \<open>Freqs: a word-frequency counter over a hand-written UTF-8 decoder\<close>

text \<open>
  The development embeds \<^verbatim>\<open>src/Freqs/freqs.cpp\<close>. Conventions:
  \<^item> \<^verbatim>\<open>uint8_t\<close> is \<open>8 word\<close> and \<^verbatim>\<open>uint32_t\<close> is \<open>32 word\<close>;
  \<^item> \<^verbatim>\<open>size_t\<close> values that index or measure the in-memory buffer (byte indices,
    letter indices, entry counts) are \<open>nat\<close>: they are bounded by the size of an
    allocated array. Where the source converts through \<^verbatim>\<open>int\<close> (32 bits) and back to
    \<^verbatim>\<open>size_t\<close> (64 bits), the wrap-around is written out;
  \<^item> an output parameter written through a pointer is an argument (its prior content)
    and a component of the result (its content on return). A local variable that the
    source reads without having initialised it is an argument of the model;
  \<^item> a read outside a vector is undefined in C++. The model reads with \<open>!\<close>, and every
    general theorem below is stated for arguments on which all reads are in range;
  \<^item> an exception that nothing catches ends the process without an exit code of
    \<^verbatim>\<open>Main\<close>: the result is \<open>Throws\<close>. The allocations that the vectors make are taken
    to succeed.
\<close>

type_synonym u8 = "8 word"
type_synonym u32 = "32 word"

subsection \<open>namespace encoding\<close>

text \<open>
  The \<^verbatim>\<open>while(byteIndex > 1)\<close> loop of \<^verbatim>\<open>InterpretFirstUtfByte\<close>. \<open>count\<close> and \<open>letter\<close>
  are the contents of \<^verbatim>\<open>*bytesCount\<close> and \<^verbatim>\<open>*letter\<close> on entry; the final
  \<^verbatim>\<open>return true\<close> leaves them as they were.
\<close>

function InterpretFirstUtfByte_loop :: "u8 \<Rightarrow> nat \<Rightarrow> nat \<Rightarrow> u32 \<Rightarrow> bool \<times> nat \<times> u32" where
  "InterpretFirstUtfByte_loop byte byteIndex count letter =
     (if byteIndex > 1 then
        (if (ucast byte :: u32) AND push_bit byteIndex 1 = 0 then
           (True, 7 - byteIndex, ucast byte AND drop_bit (8 - byteIndex) 255)
         else InterpretFirstUtfByte_loop byte (byteIndex - 1) count letter)
      else (True, count, letter))"
  by pat_completeness auto
termination
  by (relation "measure (\<lambda>(byte, byteIndex, count, letter). byteIndex)") auto

definition InterpretFirstUtfByte :: "u8 \<Rightarrow> nat \<Rightarrow> u32 \<Rightarrow> bool \<times> nat \<times> u32" where
  "InterpretFirstUtfByte byte count letter =
     (if (ucast byte :: u32) AND 128 = 0 then (True, 1, ucast byte)
      else if (ucast byte :: u32) AND 128 = 0 then (False, count, letter)
      else InterpretFirstUtfByte_loop byte 5 count letter)"

definition InterpretNextUtfByte :: "u32 \<Rightarrow> u8 \<Rightarrow> bool \<times> u32" where
  "InterpretNextUtfByte letter byte =
     (if (ucast byte :: u32) AND 128 = 0 \<or> (ucast byte :: u32) AND 64 \<noteq> 0 then (False, letter)
      else (True, push_bit 6 letter OR (ucast byte AND drop_bit 2 255)))"

text \<open>
  The \<^verbatim>\<open>while(bytesCount-- > 1)\<close> loop of \<^verbatim>\<open>ReadUtfLetter\<close>. The result is the return
  value, \<^verbatim>\<open>*startIndex\<close> and \<^verbatim>\<open>*letter\<close>. \<^verbatim>\<open>bufferSize\<close> is the length of the list.
\<close>

function ReadUtfLetter_loop :: "u8 list \<Rightarrow> nat \<Rightarrow> nat \<Rightarrow> u32 \<Rightarrow> bool \<times> nat \<times> u32" where
  "ReadUtfLetter_loop buffer count startIndex letter =
     (if count > 1 then
        (if startIndex + 1 \<ge> length buffer then (False, startIndex + 1, letter)
         else
           (case InterpretNextUtfByte letter (buffer ! (startIndex + 1)) of
              (ok, letter') \<Rightarrow>
                if \<not> ok then (False, startIndex + 1, letter')
                else ReadUtfLetter_loop buffer (count - 1) (startIndex + 1) letter'))
      else (True, startIndex + 1, letter))"
  by pat_completeness auto
termination
  by (relation "measure (\<lambda>(buffer, count, startIndex, letter). count)") auto

text \<open>
  \<open>count_in\<close> is the indeterminate content of the uninitialised local \<^verbatim>\<open>bytesCount\<close>,
  \<open>letter_in\<close> the content of \<^verbatim>\<open>*letter\<close> on entry.
\<close>

definition ReadUtfLetter :: "u8 list \<Rightarrow> nat \<Rightarrow> nat \<Rightarrow> u32 \<Rightarrow> bool \<times> nat \<times> u32" where
  "ReadUtfLetter buffer startIndex count_in letter_in =
     (if startIndex \<ge> length buffer then (False, startIndex, letter_in)
      else
        (case InterpretFirstUtfByte (buffer ! startIndex) count_in letter_in of
           (ok, count, letter) \<Rightarrow>
             if \<not> ok then (False, startIndex, letter)
             else ReadUtfLetter_loop buffer count startIndex letter))"

record LetterInfo =
  bufferOffset :: nat
  bytesCount :: u8

declare InterpretFirstUtfByte_loop.simps [simp del]
declare ReadUtfLetter_loop.simps [simp del]

text \<open>A successful \<^verbatim>\<open>ReadUtfLetter\<close> moves \<^verbatim>\<open>*startIndex\<close> forward; the loop of
  \<^verbatim>\<open>ReadUtfLetters\<close> terminates for that reason.\<close>

lemma ReadUtfLetter_loop_advances:
  "ReadUtfLetter_loop buffer count startIndex letter = (ok, startIndex', letter') \<Longrightarrow>
   startIndex < startIndex'"
proof (induction buffer count startIndex letter rule: ReadUtfLetter_loop.induct)
  case (1 buffer count startIndex letter)
  obtain ok1 letter1 where n: "InterpretNextUtfByte letter (buffer ! (startIndex + 1)) = (ok1, letter1)"
    by (cases "InterpretNextUtfByte letter (buffer ! (startIndex + 1))")
  show ?case
  proof (cases "count > 1 \<and> \<not> startIndex + 1 \<ge> length buffer \<and> ok1")
    case True
    with n "1.prems" have "ReadUtfLetter_loop buffer (count - 1) (startIndex + 1) letter1
        = (ok, startIndex', letter')"
      by (subst (asm) ReadUtfLetter_loop.simps) simp
    with True n have "startIndex + 1 < startIndex'"
      by (intro "1.IH" [of ok1 letter1]) simp_all
    then show ?thesis by simp
  next
    case False
    with n "1.prems" show ?thesis
      by (subst (asm) ReadUtfLetter_loop.simps) (auto split: if_splits)
  qed
qed

lemma ReadUtfLetter_advances:
  "ReadUtfLetter buffer startIndex count_in letter_in = (True, startIndex', letter') \<Longrightarrow>
   startIndex < startIndex'"
  by (auto simp: ReadUtfLetter_def split: if_splits prod.splits
      dest: ReadUtfLetter_loop_advances)

text \<open>
  The loop of \<^verbatim>\<open>ReadUtfLetters\<close>, on the path where \<^verbatim>\<open>letterInfos\<close> is not null (the only
  call passes a vector). \<open>junk i\<close> gives, for the letter that starts at byte \<open>i\<close>, the
  indeterminate contents of the locals \<^verbatim>\<open>bytesCount\<close> (of \<^verbatim>\<open>ReadUtfLetter\<close>) and
  \<^verbatim>\<open>letter\<close> (of this loop), neither of which the source initialises.
\<close>

function ReadUtfLetters_loop ::
  "u8 list \<Rightarrow> (nat \<Rightarrow> nat \<times> u32) \<Rightarrow> nat \<Rightarrow> u32 list \<Rightarrow> LetterInfo list
     \<Rightarrow> bool \<times> u32 list \<times> LetterInfo list" where
  "ReadUtfLetters_loop buffer junk byteIndex letters letterInfos =
     (if byteIndex < length buffer then
        (case ReadUtfLetter buffer byteIndex (fst (junk byteIndex)) (snd (junk byteIndex)) of
           (ok, byteIndex', letter) \<Rightarrow>
             if \<not> ok then (False, letters, letterInfos)
             else ReadUtfLetters_loop buffer junk byteIndex' (letters @ [letter])
                    (letterInfos @
                       [\<lparr>bufferOffset = byteIndex,
                         bytesCount = word_of_nat (byteIndex' - byteIndex)\<rparr>]))
      else (True, letters, letterInfos))"
  by pat_completeness auto
termination
proof (relation "measure (\<lambda>(buffer, junk, byteIndex, letters, letterInfos).
                           length buffer - byteIndex)", goal_cases)
  case 1
  show ?case by simp
next
  case (2 buffer junk byteIndex letters letterInfos ok rest byteIndex' letter)
  then have "ReadUtfLetter buffer byteIndex (fst (junk byteIndex)) (snd (junk byteIndex))
               = (True, byteIndex', letter)"
    by simp
  then have "byteIndex < byteIndex'"
    by (rule ReadUtfLetter_advances)
  with 2 show ?case
    by simp
qed

declare ReadUtfLetters_loop.simps [simp del]

definition ReadUtfLetters ::
  "u8 list \<Rightarrow> (nat \<Rightarrow> nat \<times> u32) \<Rightarrow> u32 list \<Rightarrow> LetterInfo list
     \<Rightarrow> bool \<times> u32 list \<times> LetterInfo list" where
  "ReadUtfLetters buffer junk letters letterInfos =
     ReadUtfLetters_loop buffer junk 0 letters letterInfos"

subsection \<open>Reading the input\<close>

text \<open>
  The stream library is not part of the repository. An opened input stream is
  \<^item> \<open>tellg\<close>: what \<^verbatim>\<open>tellg()\<close> returns after the seek to the end, which is -1 when the
    stream has no position to give (a directory, for one);
  \<^item> \<open>content\<close>: the bytes that the stream delivers from its beginning;
  \<^item> \<open>io_error\<close>: whether a seek or the device fails, so that \<^verbatim>\<open>bad()\<close> or \<^verbatim>\<open>fail()\<close> holds
    after the \<^verbatim>\<open>read\<close> for a reason other than the end of the file.
\<close>

record istream =
  tellg :: int
  content :: "u8 list"
  io_error :: bool

text \<open>What a call returns, or \<open>Throws\<close> when it ends by an exception that nothing catches.\<close>

datatype 'a outcome = Returns 'a | Throws

text \<open>
  \<^verbatim>\<open>ReadStreamToBuffer\<close> takes the size from \<^verbatim>\<open>tellg()\<close> without a check and allocates the
  buffer before it reads. \<open>bufferSize\<close> is the value of the cast to \<^verbatim>\<open>size_t\<close>, a number
  below \<open>2 ^ 64\<close>. \<^verbatim>\<open>new uint8_t[n]\<close> throws when \<open>n\<close> bytes cannot be allocated: \<open>heap\<close> is
  the size that the run can still allocate, and no run allocates \<open>2 ^ 63\<close> bytes or more.
  The \<^verbatim>\<open>read\<close> of \<open>n\<close> bytes fails on an error of the stream, and with \<^verbatim>\<open>eof()\<close> when the
  stream delivers fewer; the result is then \<^verbatim>\<open>false\<close>, here \<open>None\<close>.
\<close>

definition ReadStreamToBuffer :: "istream \<Rightarrow> nat \<Rightarrow> u8 list option outcome" where
  "ReadStreamToBuffer input heap =
     (let bufferSize = tellg input mod 2 ^ 64 in
      if \<not> (bufferSize \<le> int heap \<and> bufferSize < 2 ^ 63) then Throws
      else if io_error input \<or> int (length (content input)) < bufferSize then Returns None
      else Returns (Some (take (nat bufferSize) (content input))))"

datatype ExitCode =
  NoError | InvalidInputArgsCount | InvalidInputFile | InvalidOutputFile | InvalidFileFormat

text \<open>The value of the enumerator, which \<^verbatim>\<open>main\<close> returns as the process exit code.\<close>

fun exit_status :: "ExitCode \<Rightarrow> int" where
  "exit_status NoError = 0"
| "exit_status InvalidInputArgsCount = 1"
| "exit_status InvalidInputFile = 2"
| "exit_status InvalidOutputFile = 3"
| "exit_status InvalidFileFormat = 4"

subsection \<open>Alphabets, classification and case folding\<close>

record Alphabet =
  upperCaseBegin :: u32
  lowerCaseBegin :: u32
  lowerCaseEnd :: u32

definition alphabets :: "Alphabet list" where
  "alphabets =
     [\<lparr>upperCaseBegin = 65, lowerCaseBegin = 97, lowerCaseEnd = 122\<rparr>,
      \<lparr>upperCaseBegin = 1040, lowerCaseBegin = 1072, lowerCaseEnd = 1104\<rparr>]"

fun IsAlpha_loop :: "Alphabet list \<Rightarrow> u32 \<Rightarrow> bool" where
  "IsAlpha_loop [] letter = False"
| "IsAlpha_loop (a # as) letter =
     (if letter < upperCaseBegin a then False
      else if letter < lowerCaseEnd a then True
      else IsAlpha_loop as letter)"

definition IsAlpha :: "u32 \<Rightarrow> bool" where
  "IsAlpha letter = IsAlpha_loop alphabets letter"

text \<open>The inner loop of the pass that converts the letters to lower case, and the pass.\<close>

fun lower_case_loop :: "Alphabet list \<Rightarrow> u32 \<Rightarrow> u32" where
  "lower_case_loop [] letter = letter"
| "lower_case_loop (a # as) letter =
     (if letter \<ge> upperCaseBegin a \<and> letter < lowerCaseBegin a
      then letter + (lowerCaseBegin a - upperCaseBegin a)
      else lower_case_loop as letter)"

definition lower_case :: "u32 list \<Rightarrow> u32 list" where
  "lower_case letters = map (lower_case_loop alphabets) letters"

subsection \<open>Words\<close>

record WordInfo =
  startLetterIndex :: nat
  lettersCount :: nat
  entries :: nat

text \<open>The inner loop of \<^verbatim>\<open>registerWord\<close>; the result is \<^verbatim>\<open>theSame\<close>.\<close>

function theSame_loop :: "u32 list \<Rightarrow> nat \<Rightarrow> WordInfo \<Rightarrow> nat \<Rightarrow> bool" where
  "theSame_loop letters firstLetter word letterIndexInWord =
     (if letterIndexInWord < lettersCount word then
        (if letters ! (firstLetter + letterIndexInWord)
              \<noteq> letters ! (startLetterIndex word + letterIndexInWord)
         then False
         else theSame_loop letters firstLetter word (letterIndexInWord + 1))
      else True)"
  by pat_completeness auto
termination
  by (relation "measure (\<lambda>(letters, firstLetter, word, letterIndexInWord).
                   lettersCount word - letterIndexInWord)") auto

declare theSame_loop.simps [simp del]

text \<open>
  \<^verbatim>\<open>registerWord\<close>: the loop over \<^verbatim>\<open>words\<close> and, when it ends without a duplicate, the
  \<^verbatim>\<open>push_back\<close> of a new record. The result is the new content of \<^verbatim>\<open>words\<close>.
\<close>

fun registerWord :: "u32 list \<Rightarrow> WordInfo list \<Rightarrow> nat \<Rightarrow> nat \<Rightarrow> WordInfo list" where
  "registerWord letters [] firstLetter count =
     [\<lparr>startLetterIndex = firstLetter, lettersCount = count, entries = 1\<rparr>]"
| "registerWord letters (word # words) firstLetter count =
     (if lettersCount word \<noteq> count then word # registerWord letters words firstLetter count
      else if theSame_loop letters firstLetter word 0
      then word\<lparr>entries := entries word + 1\<rparr> # words
      else word # registerWord letters words firstLetter count)"

text \<open>
  \<^verbatim>\<open>firstLetter\<close> is an \<^verbatim>\<open>int\<close>: \<^verbatim>\<open>static_cast<int>(letterIndex)\<close> keeps the low 32 bits as
  a signed value, and passing it where a \<^verbatim>\<open>size_t\<close> is expected, or subtracting it from
  one, first converts it modulo \<open>2 ^ 64\<close>.
\<close>

definition int_of_size_t :: "nat \<Rightarrow> int" where
  "int_of_size_t n = sint (word_of_nat n :: 32 word)"

definition size_t_of_int :: "int \<Rightarrow> nat" where
  "size_t_of_int i = nat (i mod 2 ^ 64)"

definition size_t_minus_int :: "nat \<Rightarrow> int \<Rightarrow> nat" where
  "size_t_minus_int n i = nat ((int n - i) mod 2 ^ 64)"

text \<open>The loop that gathers the words; the result is \<^verbatim>\<open>firstLetter\<close> and \<^verbatim>\<open>words\<close>.\<close>

function gather_loop :: "u32 list \<Rightarrow> nat \<Rightarrow> int \<Rightarrow> WordInfo list \<Rightarrow> int \<times> WordInfo list" where
  "gather_loop letters letterIndex firstLetter words =
     (if letterIndex < length letters then
        (if IsAlpha (letters ! letterIndex) then
           (if firstLetter = -1
            then gather_loop letters (letterIndex + 1) (int_of_size_t letterIndex) words
            else gather_loop letters (letterIndex + 1) firstLetter words)
         else if firstLetter \<noteq> -1 then
           gather_loop letters (letterIndex + 1) (-1)
             (registerWord letters words (size_t_of_int firstLetter)
                (size_t_minus_int letterIndex firstLetter))
         else gather_loop letters (letterIndex + 1) firstLetter words)
      else (firstLetter, words))"
  by pat_completeness auto
termination
  by (relation "measure (\<lambda>(letters, letterIndex, firstLetter, words).
                   length letters - letterIndex)") auto

declare gather_loop.simps [simp del]

text \<open>The block that fills the words collection: the loop, then the last word.\<close>

definition gather_words :: "u32 list \<Rightarrow> WordInfo list" where
  "gather_words letters =
     (case gather_loop letters 0 (-1) [] of
        (firstLetter, words) \<Rightarrow>
          if firstLetter \<noteq> -1
          then registerWord letters words (size_t_of_int firstLetter)
                 (size_t_minus_int (length letters) firstLetter)
          else words)"

subsection \<open>Sorting and writing\<close>

text \<open>
  The letters \<^verbatim>\<open>[aBegin, aBegin + a.lettersCount)\<close> that the comparator hands to
  \<^verbatim>\<open>std::lexicographical_compare\<close>, and that library function on two ranges.
\<close>

definition word_letters :: "u32 list \<Rightarrow> WordInfo \<Rightarrow> u32 list" where
  "word_letters letters word = take (lettersCount word) (drop (startLetterIndex word) letters)"

fun lexicographical_compare :: "u32 list \<Rightarrow> u32 list \<Rightarrow> bool" where
  "lexicographical_compare [] [] = False"
| "lexicographical_compare [] (y # ys) = True"
| "lexicographical_compare (x # xs) [] = False"
| "lexicographical_compare (x # xs) (y # ys) =
     (if x < y then True else if y < x then False else lexicographical_compare xs ys)"

text \<open>The comparator passed to \<^verbatim>\<open>std::sort\<close>.\<close>

definition compare_words :: "u32 list \<Rightarrow> WordInfo \<Rightarrow> WordInfo \<Rightarrow> bool" where
  "compare_words letters a b =
     (if entries a = entries b
      then lexicographical_compare (word_letters letters a) (word_letters letters b)
      else entries a > entries b)"

text \<open>
  \<^verbatim>\<open>std::sort\<close> is library code; the standard only says that it returns a permutation
  ordered by the comparator. The model is insertion sort. On records with pairwise
  different letters, which is what \<^verbatim>\<open>registerWord\<close> builds, the comparator is a strict
  total order, so the ordered permutation is unique (\<open>sorted_permutation_unique\<close>
  below) and the choice of the algorithm does not show.
\<close>

fun insert_word :: "u32 list \<Rightarrow> WordInfo \<Rightarrow> WordInfo list \<Rightarrow> WordInfo list" where
  "insert_word letters w [] = [w]"
| "insert_word letters w (x # xs) =
     (if compare_words letters w x then w # x # xs else x # insert_word letters w xs)"

definition sort_words :: "u32 list \<Rightarrow> WordInfo list \<Rightarrow> WordInfo list" where
  "sort_words letters words = foldr (insert_word letters) words []"

text \<open>\<^verbatim>\<open>output << word.entries\<close>: the decimal digits of an unsigned number, in ASCII.\<close>

fun decimal :: "nat \<Rightarrow> u8 list" where
  "decimal n =
     (if n < 10 then [word_of_nat (48 + n)]
      else decimal (n div 10) @ [word_of_nat (48 + n mod 10)])"

declare decimal.simps [simp del]

text \<open>\<^verbatim>\<open>output.write(buffer + bufferOffset, bytesCount)\<close> for one letter.\<close>

definition letter_bytes :: "u8 list \<Rightarrow> LetterInfo \<Rightarrow> u8 list" where
  "letter_bytes buffer letterInfo =
     take (unat (bytesCount letterInfo)) (drop (bufferOffset letterInfo) buffer)"

text \<open>
  The bytes that the inner loop of the output loop writes for one word, and the body of
  the output loop: the count, a space (32), the bytes of the word, and \<^verbatim>\<open>std::endl\<close>,
  which writes a line feed (10).
\<close>

definition word_bytes :: "u8 list \<Rightarrow> LetterInfo list \<Rightarrow> WordInfo \<Rightarrow> u8 list" where
  "word_bytes buffer lettersInfos word =
     concat (map (\<lambda>letterIndexInWord.
                     letter_bytes buffer (lettersInfos ! (startLetterIndex word + letterIndexInWord)))
               [0..<lettersCount word])"

definition write_word :: "u8 list \<Rightarrow> LetterInfo list \<Rightarrow> WordInfo \<Rightarrow> u8 list" where
  "write_word buffer lettersInfos word =
     decimal (entries word) @ [32] @ word_bytes buffer lettersInfos word @ [10]"

subsection \<open>Main\<close>

text \<open>
  What \<^verbatim>\<open>Main\<close> depends on: \<^verbatim>\<open>argc\<close>; the input stream, \<open>None\<close> when it cannot be
  opened; whether the output stream can be opened; the size that can be allocated; and
  the indeterminate values the decoder may read (see \<open>ReadUtfLetters_loop\<close>). The
  result is the exit code and the bytes written to the output stream, or \<open>Throws\<close>.
\<close>

record Invocation =
  argc :: int
  input_file :: "istream option"
  output_opens :: bool
  heap :: nat
  indeterminate :: "nat \<Rightarrow> nat \<times> u32"

definition Main :: "Invocation \<Rightarrow> (ExitCode \<times> u8 list) outcome" where
  "Main run =
     (if argc run \<noteq> 3 then Returns (InvalidInputArgsCount, [])
      else case input_file run of
        None \<Rightarrow> Returns (InvalidInputFile, [])
      | Some input \<Rightarrow>
          if \<not> output_opens run then Returns (InvalidOutputFile, [])
          else case ReadStreamToBuffer input (heap run) of
            Throws \<Rightarrow> Throws
          | Returns None \<Rightarrow> Returns (InvalidInputFile, [])
          | Returns (Some buffer) \<Rightarrow>
              (case ReadUtfLetters buffer (indeterminate run) [] [] of
                 (ok, letters, lettersInfos) \<Rightarrow>
                   if \<not> ok then Returns (InvalidFileFormat, [])
                   else
                     let folded = lower_case letters;
                         words = sort_words folded (gather_words folded)
                     in Returns (NoError, concat (map (write_word buffer lettersInfos) words))))"

text \<open>
  The process exit code: \<^verbatim>\<open>main\<close> casts the result of \<^verbatim>\<open>Main\<close> to \<^verbatim>\<open>int\<close>. When \<^verbatim>\<open>Main\<close>
  throws, the process is aborted and has no exit code of the program.
\<close>

definition main :: "Invocation \<Rightarrow> int outcome" where
  "main run =
     (case Main run of
        Throws \<Rightarrow> Throws
      | Returns result \<Rightarrow> Returns (exit_status (fst result)))"

text \<open>The bytes that a run has written to the output stream.\<close>

definition written :: "(ExitCode \<times> u8 list) outcome \<Rightarrow> u8 list" where
  "written result = (case result of Throws \<Rightarrow> [] | Returns (code, bytes) \<Rightarrow> bytes)"

text \<open>
  A run with two arguments on a file of the given bytes, whose size can be obtained and
  allocated, and a writable output.
\<close>

definition run_on :: "u8 list \<Rightarrow> (nat \<Rightarrow> nat \<times> u32) \<Rightarrow> Invocation" where
  "run_on bytes junk =
     \<lparr>argc = 3,
      input_file = Some \<lparr>tellg = int (length bytes), content = bytes, io_error = False\<rparr>,
      output_opens = True, heap = length bytes, indeterminate = junk\<rparr>"

text \<open>The bytes of an ASCII string.\<close>

definition ascii :: "string \<Rightarrow> u8 list" where
  "ascii s = map (\<lambda>c. word_of_nat (of_char c)) s"

subsection \<open>Notions used in the statements\<close>

text \<open>
  The invariant of the words collection: every record lies inside the letters and has
  at least one entry, and no two records have the same letters.
\<close>

definition words_invariant :: "u32 list \<Rightarrow> WordInfo list \<Rightarrow> bool" where
  "words_invariant letters words \<longleftrightarrow>
     (\<forall>word\<in>set words.
        startLetterIndex word + lettersCount word \<le> length letters \<and> 1 \<le> entries word) \<and>
     distinct (map (word_letters letters) words)"

text \<open>
  The calls of \<^verbatim>\<open>registerWord\<close> that the block filling the words collection makes, in
  order, each as its two arguments: \<open>gather_loop\<close> and the last word of \<open>gather_words\<close>
  with the calls collected instead of made. \<open>register_all\<close> makes them.
\<close>

function gather_calls :: "u32 list \<Rightarrow> nat \<Rightarrow> int \<Rightarrow> (nat \<times> nat) list" where
  "gather_calls letters letterIndex firstLetter =
     (if letterIndex < length letters then
        (if IsAlpha (letters ! letterIndex) then
           (if firstLetter = -1
            then gather_calls letters (letterIndex + 1) (int_of_size_t letterIndex)
            else gather_calls letters (letterIndex + 1) firstLetter)
         else if firstLetter \<noteq> -1 then
           (size_t_of_int firstLetter, size_t_minus_int letterIndex firstLetter)
             # gather_calls letters (letterIndex + 1) (-1)
         else gather_calls letters (letterIndex + 1) firstLetter)
      else if firstLetter \<noteq> -1 then
        [(size_t_of_int firstLetter, size_t_minus_int (length letters) firstLetter)]
      else [])"
  by pat_completeness auto
termination
  by (relation "measure (\<lambda>(letters, letterIndex, firstLetter). length letters - letterIndex)") auto

declare gather_calls.simps [simp del]

definition register_all :: "u32 list \<Rightarrow> WordInfo list \<Rightarrow> (nat \<times> nat) list \<Rightarrow> WordInfo list" where
  "register_all letters words calls =
     foldl (\<lambda>words call. registerWord letters words (fst call) (snd call)) words calls"

text \<open>
  The letters that a call registers, and what it means that a record refers to the first
  of the calls that registered its letters.
\<close>

definition call_letters :: "u32 list \<Rightarrow> nat \<times> nat \<Rightarrow> u32 list" where
  "call_letters letters call = take (snd call) (drop (fst call) letters)"

definition first_call :: "u32 list \<Rightarrow> (nat \<times> nat) list \<Rightarrow> WordInfo \<Rightarrow> bool" where
  "first_call letters calls word \<longleftrightarrow>
     (\<exists>k<length calls. calls ! k = (startLetterIndex word, lettersCount word) \<and>
        (\<forall>j<k. call_letters letters (calls ! j) \<noteq> call_letters letters (calls ! k)))"

section \<open>The decoder\<close>

subsection \<open>The first byte of a letter\<close>

lemma ucast_and_bit: "n < 8 \<Longrightarrow> ((ucast (b::u8) :: u32) AND 2 ^ n = 0) = (\<not> bit b n)"
  by (simp add: and_exp_eq_0_iff_not_bit bit_ucast_iff)

lemma first_bit7: "((ucast (b::u8) :: u32) AND 128 = 0) = (\<not> bit b 7)"
  using ucast_and_bit[of 7 b] by simp

lemma first_bit6: "((ucast (b::u8) :: u32) AND 64 = 0) = (\<not> bit b 6)"
  using ucast_and_bit[of 6 b] by simp

lemma low_bits: "1 < p \<Longrightarrow> p < 6 \<Longrightarrow> drop_bit (8 - p) (255::u32) = mask p"
proof -
  assume "1 < p" "p < 6"
  then consider "p = 2" | "p = 3" | "p = 4" | "p = 5" by linarith
  then show ?thesis
    by cases (simp_all add: mask_eq_exp_minus_1 drop_bit_eq_div)
qed

lemma loop_1: "InterpretFirstUtfByte_loop byte (Suc 0) count letter = (True, count, letter)"
  by (subst InterpretFirstUtfByte_loop.simps) simp

lemma loop_step:
  "1 < p \<Longrightarrow> p < 6 \<Longrightarrow> InterpretFirstUtfByte_loop byte p count letter =
     (if \<not> bit byte p then (True, 7 - p, ucast byte AND mask p)
      else InterpretFirstUtfByte_loop byte (p - 1) count letter)"
  by (subst InterpretFirstUtfByte_loop.simps) (simp add: ucast_and_bit low_bits)

lemma InterpretFirstUtfByte_cases:
  "InterpretFirstUtfByte byte count letter =
     (if \<not> bit byte 7 then (True, 1, ucast byte)
      else if \<not> bit byte 5 then (True, 2, ucast byte AND mask 5)
      else if \<not> bit byte 4 then (True, 3, ucast byte AND mask 4)
      else if \<not> bit byte 3 then (True, 4, ucast byte AND mask 3)
      else if \<not> bit byte 2 then (True, 5, ucast byte AND mask 2)
      else (True, count, letter))"
  using loop_step[of 5 byte count letter] loop_step[of 4 byte count letter]
    loop_step[of 3 byte count letter] loop_step[of 2 byte count letter]
    loop_1[of byte count letter]
  by (simp add: InterpretFirstUtfByte_def first_bit7)




text \<open>
  Claim C10. For a first byte with bits 7, 5, 4, 3 and 2 set, \<^verbatim>\<open>InterpretFirstUtfByte\<close>
  returns true and assigns neither \<^verbatim>\<open>*bytesCount\<close> nor \<^verbatim>\<open>*letter\<close>; \<^verbatim>\<open>ReadUtfLetter\<close> then
  runs its loop on the unassigned count and letter instead of failing, and when that
  count is at most 1 it reports a letter of one byte whose value is the unassigned one.
\<close>

theorem unassigned_first_byte:
  assumes "bit byte 7" and "bit byte 5" and "bit byte 4" and "bit byte 3" and "bit byte 2"
  shows "InterpretFirstUtfByte byte count letter = (True, count, letter) \<and>
         (startIndex < length buffer \<and> buffer ! startIndex = byte \<longrightarrow>
            ReadUtfLetter buffer startIndex count letter
              = ReadUtfLetter_loop buffer count startIndex letter \<and>
            (count \<le> 1 \<longrightarrow>
               ReadUtfLetter buffer startIndex count letter = (True, startIndex + 1, letter)))"
proof -
  from assms have first: "InterpretFirstUtfByte byte count letter = (True, count, letter)"
    by (simp add: InterpretFirstUtfByte_cases)
  have "ReadUtfLetter buffer startIndex count letter
          = ReadUtfLetter_loop buffer count startIndex letter"
    if "startIndex < length buffer" and "buffer ! startIndex = byte"
    using that first by (simp add: ReadUtfLetter_def)
  moreover have "ReadUtfLetter_loop buffer count startIndex letter = (True, startIndex + 1, letter)"
    if "count \<le> 1"
    using that by (subst ReadUtfLetter_loop.simps) simp
  ultimately show ?thesis
    using first by simp
qed

theorem unassigned_first_byte_witness:
  "bit (0xBF :: u8) 7 \<and> bit (0xBF :: u8) 5 \<and> bit (0xBF :: u8) 4 \<and> bit (0xBF :: u8) 3 \<and>
   bit (0xBF :: u8) 2 \<and>
   InterpretFirstUtfByte 0xBF 0 97 = (True, 0, 97) \<and>
   ReadUtfLetter [0xBF] 0 0 97 = (True, 1, 97)"
  using unassigned_first_byte [where byte = "0xBF" and count = 0 and letter = 97
      and startIndex = 0 and buffer = "[0xBF]"]
  by auto

section \<open>Classification and case folding\<close>

lemma IsAlpha_iff:
  "IsAlpha letter \<longleftrightarrow> (65 \<le> letter \<and> letter < 122) \<or> (1040 \<le> letter \<and> letter < 1104)"
  by (auto simp: IsAlpha_def alphabets_def word_less_nat_alt word_le_nat_alt)

text \<open>
  Claim C3, amended. \<^verbatim>\<open>IsAlpha\<close> holds for every letter from an alphabet's
  \<^verbatim>\<open>upperCaseBegin\<close> up to, but not including, its \<^verbatim>\<open>lowerCaseEnd\<close>: 65 to 121 and 1040 to
  1103, the gap between the upper and the lower case included.
\<close>

theorem IsAlpha_amended:
  "(65 \<le> letter \<and> letter < 122) \<or> (1040 \<le> letter \<and> letter < 1104) \<Longrightarrow> IsAlpha letter"
  by (simp add: IsAlpha_iff)

theorem IsAlpha_amended_witness:
  "IsAlpha 65 \<and> IsAlpha 96 \<and> IsAlpha 121 \<and> IsAlpha 1040 \<and> IsAlpha 1103"
  using IsAlpha_amended [of 65] IsAlpha_amended [of 96] IsAlpha_amended [of 121]
    IsAlpha_amended [of 1040] IsAlpha_amended [of 1103]
  by simp

text \<open>
  Claim C3 as stated includes the ends 122 and 1104 of the two ranges; the comparison
  with \<^verbatim>\<open>lowerCaseEnd\<close> is strict, and neither is classified as alphabetic.
\<close>

theorem IsAlpha_fails_at_range_ends:
  "\<not> IsAlpha 122 \<and> \<not> IsAlpha 1104"
  by (simp add: IsAlpha_iff)

text \<open>
  Claim C7. The inner loop of the case-folding pass adds
  \<^verbatim>\<open>lowerCaseBegin - upperCaseBegin\<close> of the first descriptor whose interval
  \<^verbatim>\<open>[upperCaseBegin, lowerCaseBegin)\<close> holds the letter, and leaves a letter in no such
  interval unchanged; the pass does so for every letter. 1040 folds to 1072, and in the
  file \<open>D0 B0 20 D0 90\<close> (lower case, space, upper case of the same Cyrillic letter)
  the second word counts as an occurrence of the first.
\<close>

theorem case_folding:
  "lower_case_loop as letter =
     (case find (\<lambda>a. upperCaseBegin a \<le> letter \<and> letter < lowerCaseBegin a) as of
        None \<Rightarrow> letter
      | Some a \<Rightarrow> letter + (lowerCaseBegin a - upperCaseBegin a)) \<and>
   lower_case letters = map (lower_case_loop alphabets) letters \<and>
   lower_case_loop alphabets 1040 = 1072 \<and>
   Main (run_on [0xD0, 0xB0, 0x20, 0xD0, 0x90] junk)
     = Returns (NoError, [0x32, 0x20, 0xD0, 0xB0, 0x0A])"
proof (intro conjI)
  show "lower_case_loop as letter =
     (case find (\<lambda>a. upperCaseBegin a \<le> letter \<and> letter < lowerCaseBegin a) as of
        None \<Rightarrow> letter
      | Some a \<Rightarrow> letter + (lowerCaseBegin a - upperCaseBegin a))"
    by (induction as) simp_all
  show "lower_case letters = map (lower_case_loop alphabets) letters"
    by (simp add: lower_case_def)
  show "lower_case_loop alphabets 1040 = 1072"
    by (simp add: alphabets_def)
  show "Main (run_on [0xD0, 0xB0, 0x20, 0xD0, 0x90] junk)
     = Returns (NoError, [0x32, 0x20, 0xD0, 0xB0, 0x0A])"
    by code_simp
qed

section \<open>Decoding failures and exit codes\<close>

lemma InterpretNextUtfByte_ok:
  "fst (InterpretNextUtfByte letter byte) \<longleftrightarrow> bit byte 7 \<and> \<not> bit byte 6"
  by (simp add: InterpretNextUtfByte_def first_bit7 first_bit6)

lemma ReadUtfLetter_loop_ok_iff:
  "fst (ReadUtfLetter_loop buffer count i letter) \<longleftrightarrow>
     (\<forall>k. 1 \<le> k \<and> k < count \<longrightarrow>
        i + k < length buffer \<and> bit (buffer ! (i + k)) 7 \<and> \<not> bit (buffer ! (i + k)) 6)"
proof (induction buffer count i letter rule: ReadUtfLetter_loop.induct)
  case (1 buffer count i letter)
  let ?good = "\<lambda>k. i + k < length buffer \<and> bit (buffer ! (i + k)) 7 \<and> \<not> bit (buffer ! (i + k)) 6"
  obtain ok1 letter1 where n: "InterpretNextUtfByte letter (buffer ! (i + 1)) = (ok1, letter1)"
    by (cases "InterpretNextUtfByte letter (buffer ! (i + 1))")
  then have ok1: "ok1 \<longleftrightarrow> bit (buffer ! (i + 1)) 7 \<and> \<not> bit (buffer ! (i + 1)) 6"
    using InterpretNextUtfByte_ok [of letter "buffer ! (i + 1)"] by simp
  show ?case
  proof (cases "count > 1")
    case False
    then show ?thesis
      by (subst ReadUtfLetter_loop.simps) auto
  next
    case True
    show ?thesis
    proof (cases "?good 1")
      case False
      with True n ok1 have "\<not> fst (ReadUtfLetter_loop buffer count i letter)"
        by (subst ReadUtfLetter_loop.simps) auto
      moreover from False True have "\<not> (\<forall>k. 1 \<le> k \<and> k < count \<longrightarrow> ?good k)"
        by (intro notI) (drule spec [of _ 1], simp)
      ultimately show ?thesis by blast
    next
      case good1: True
      with True n ok1 have unfold: "ReadUtfLetter_loop buffer count i letter
          = ReadUtfLetter_loop buffer (count - 1) (i + 1) letter1"
        by (subst ReadUtfLetter_loop.simps) simp
      from True good1 n ok1 have IH: "fst (ReadUtfLetter_loop buffer (count - 1) (i + 1) letter1) \<longleftrightarrow>
          (\<forall>k. 1 \<le> k \<and> k < count - 1 \<longrightarrow> i + 1 + k < length buffer \<and>
             bit (buffer ! (i + 1 + k)) 7 \<and> \<not> bit (buffer ! (i + 1 + k)) 6)"
        by (intro "1.IH" [of ok1 letter1]) simp_all
      have "(\<forall>k. 1 \<le> k \<and> k < count - 1 \<longrightarrow> i + 1 + k < length buffer \<and>
             bit (buffer ! (i + 1 + k)) 7 \<and> \<not> bit (buffer ! (i + 1 + k)) 6)
         \<longleftrightarrow> (\<forall>k. 1 \<le> k \<and> k < count \<longrightarrow> ?good k)" (is "?L \<longleftrightarrow> ?R")
      proof
        assume L: ?L
        show ?R
        proof (intro allI impI)
          fix k assume k: "1 \<le> k \<and> k < count"
          show "?good k"
          proof (cases "k = 1")
            case True
            with good1 show ?thesis by simp
          next
            case False
            with k have "1 \<le> k - 1 \<and> k - 1 < count - 1" by linarith
            with L have "i + 1 + (k - 1) < length buffer \<and>
               bit (buffer ! (i + 1 + (k - 1))) 7 \<and> \<not> bit (buffer ! (i + 1 + (k - 1))) 6"
              by blast
            moreover from k have "i + 1 + (k - 1) = i + k" by simp
            ultimately show ?thesis by simp
          qed
        qed
      next
        assume R: ?R
        show ?L
        proof (intro allI impI)
          fix k assume k: "1 \<le> k \<and> k < count - 1"
          then have "1 \<le> k + 1 \<and> k + 1 < count" by linarith
          with R have "?good (k + 1)" by blast
          then show "i + 1 + k < length buffer \<and>
             bit (buffer ! (i + 1 + k)) 7 \<and> \<not> bit (buffer ! (i + 1 + k)) 6"
            by (simp add: add.assoc add.commute)
        qed
      qed
      with unfold IH show ?thesis by simp
    qed
  qed
qed

lemma ReadUtfLetter_ok_iff:
  "fst (ReadUtfLetter buffer i count_in letter_in) \<longleftrightarrow>
     i < length buffer \<and>
     (\<forall>k. 1 \<le> k \<and> k < fst (snd (InterpretFirstUtfByte (buffer ! i) count_in letter_in)) \<longrightarrow>
        i + k < length buffer \<and> bit (buffer ! (i + k)) 7 \<and> \<not> bit (buffer ! (i + k)) 6)"
proof -
  obtain count letter where f: "InterpretFirstUtfByte (buffer ! i) count_in letter_in = (True, count, letter)"
    by (cases "InterpretFirstUtfByte (buffer ! i) count_in letter_in")
       (simp add: InterpretFirstUtfByte_cases split: if_splits)
  show ?thesis
    by (simp add: ReadUtfLetter_def f ReadUtfLetter_loop_ok_iff)
qed

lemma ReadUtfLetters_loop_fails:
  "i < length buffer \<Longrightarrow> \<not> fst (ReadUtfLetter buffer i (fst (junk i)) (snd (junk i))) \<Longrightarrow>
   \<not> fst (ReadUtfLetters_loop buffer junk i letters letterInfos)"
  by (subst ReadUtfLetters_loop.simps) (auto split: prod.splits)

lemma ReadUtfLetters_loop_done:
  "\<not> i < length buffer \<Longrightarrow> ReadUtfLetters_loop buffer junk i ls lis = (True, ls, lis)"
  by (subst ReadUtfLetters_loop.simps) simp

lemma ReadUtfLetters_loop_ok_accumulators:
  "fst (ReadUtfLetters_loop buffer junk i ls lis) = fst (ReadUtfLetters_loop buffer junk i ls' lis')"
proof (induction "length buffer - i" arbitrary: i ls lis ls' lis' rule: less_induct)
  case less
  show ?case
  proof (cases "i < length buffer")
    case False
    then show ?thesis by (simp add: ReadUtfLetters_loop_done)
  next
    case True
    obtain ok i' letter where
      r: "ReadUtfLetter buffer i (fst (junk i)) (snd (junk i)) = (ok, i', letter)"
      by (cases "ReadUtfLetter buffer i (fst (junk i)) (snd (junk i))")
    show ?thesis
    proof (cases ok)
      case False
      with True r show ?thesis
        by (subst ReadUtfLetters_loop.simps, subst (2) ReadUtfLetters_loop.simps) simp
    next
      case ok: True
      with r have "i < i'" by (simp add: ReadUtfLetter_advances)
      with True have "length buffer - i' < length buffer - i" by linarith
      then have "fst (ReadUtfLetters_loop buffer junk i' (ls @ [letter])
            (lis @ [\<lparr>bufferOffset = i, bytesCount = word_of_nat (i' - i)\<rparr>]))
          = fst (ReadUtfLetters_loop buffer junk i' (ls' @ [letter])
            (lis' @ [\<lparr>bufferOffset = i, bytesCount = word_of_nat (i' - i)\<rparr>]))"
        by (rule less.hyps)
      with True r ok show ?thesis
        by (subst ReadUtfLetters_loop.simps, subst (2) ReadUtfLetters_loop.simps) simp
    qed
  qed
qed

text \<open>
  Decoding the buffer from a byte index succeeds exactly when the index is at the end, or
  the letter there decodes and decoding from the byte after it succeeds: a failure of
  any letter, not only of the first, is a failure of the whole.
\<close>

lemma ReadUtfLetters_loop_ok_iff:
  "fst (ReadUtfLetters_loop buffer junk i ls lis) \<longleftrightarrow>
     (i < length buffer \<longrightarrow>
        (case ReadUtfLetter buffer i (fst (junk i)) (snd (junk i)) of
           (ok, i', letter) \<Rightarrow> ok \<and> fst (ReadUtfLetters_loop buffer junk i' [] [])))"
proof (cases "i < length buffer")
  case False
  then show ?thesis by (simp add: ReadUtfLetters_loop_done)
next
  case True
  obtain ok i' letter where
    r: "ReadUtfLetter buffer i (fst (junk i)) (snd (junk i)) = (ok, i', letter)"
    by (cases "ReadUtfLetter buffer i (fst (junk i)) (snd (junk i))")
  have "fst (ReadUtfLetters_loop buffer junk i ls lis) \<longleftrightarrow>
      ok \<and> fst (ReadUtfLetters_loop buffer junk i' (ls @ [letter])
        (lis @ [\<lparr>bufferOffset = i, bytesCount = word_of_nat (i' - i)\<rparr>]))"
    using True r by (subst ReadUtfLetters_loop.simps) simp
  also have "\<dots> \<longleftrightarrow> ok \<and> fst (ReadUtfLetters_loop buffer junk i' [] [])"
    using ReadUtfLetters_loop_ok_accumulators [of buffer junk i' "ls @ [letter]" _ "[]" "[]"]
    by simp
  finally show ?thesis using True r by simp
qed

text \<open>
  The result of \<^verbatim>\<open>main\<close> on every path of \<^verbatim>\<open>Main\<close>, for an input of fewer than \<open>2 ^ 31\<close>
  bytes: every statement about the words that the program gathers stands for fewer than
  \<open>2 ^ 31\<close> letters, the range in which \<^verbatim>\<open>int firstLetter\<close> holds a letter index.
\<close>

lemma Main_exit:
  assumes "\<And>input. input_file run = Some input \<Longrightarrow> length (content input) < 2 ^ 31"
  shows "main run =
     (if argc run \<noteq> 3 then Returns 1
      else case input_file run of
        None \<Rightarrow> Returns 2
      | Some input \<Rightarrow>
          if \<not> output_opens run then Returns 3
          else case ReadStreamToBuffer input (heap run) of
            Throws \<Rightarrow> Throws
          | Returns None \<Rightarrow> Returns 2
          | Returns (Some buffer) \<Rightarrow>
              if \<not> fst (ReadUtfLetters buffer (indeterminate run) [] []) then Returns 4
              else Returns 0)"
  by (simp add: main_def Main_def Let_def split: option.splits prod.splits outcome.splits)

lemma exit_code_examples:
  "main \<lparr>argc = 2, input_file = None, output_opens = False, heap = 0,
         indeterminate = (\<lambda>_. (0, 0))\<rparr> = Returns 1 \<and>
   main \<lparr>argc = 3, input_file = None, output_opens = False, heap = 0,
         indeterminate = (\<lambda>_. (0, 0))\<rparr> = Returns 2 \<and>
   main \<lparr>argc = 3, input_file = Some \<lparr>tellg = 0, content = [], io_error = True\<rparr>,
         output_opens = False, heap = 0, indeterminate = (\<lambda>_. (0, 0))\<rparr> = Returns 3 \<and>
   main \<lparr>argc = 3, input_file = Some \<lparr>tellg = 0, content = [], io_error = True\<rparr>,
         output_opens = True, heap = 0, indeterminate = (\<lambda>_. (0, 0))\<rparr> = Returns 2 \<and>
   main \<lparr>argc = 3, input_file = Some \<lparr>tellg = 2, content = [0x41], io_error = False\<rparr>,
         output_opens = True, heap = 2, indeterminate = (\<lambda>_. (0, 0))\<rparr> = Returns 2 \<and>
   main (run_on [0x80] junk) = Returns 4 \<and>
   main (run_on [0xC3] junk) = Returns 4 \<and>
   main (run_on [0xC3, 0x41] junk) = Returns 4 \<and>
   main (run_on [0x61, 0xC3] junk) = Returns 4 \<and>
   main (run_on [0xC3, 0xA9] junk) = Returns 0"
  by code_simp

text \<open>
  Claim C5 at an input that opens and has no position to give. \<^verbatim>\<open>tellg()\<close> returns -1,
  the cast makes it \<open>2 ^ 64 - 1\<close>, \<^verbatim>\<open>new uint8_t[...]\<close> throws, and nothing catches the
  exception: the process is aborted where the claim has the exit code 2 of an input that
  cannot be read.
\<close>

theorem unsized_input_throws:
  "Main \<lparr>argc = 3, input_file = Some \<lparr>tellg = - 1, content = bytes, io_error = e\<rparr>,
         output_opens = True, heap = h, indeterminate = junk\<rparr> = Throws \<and>
   main \<lparr>argc = 3, input_file = Some \<lparr>tellg = - 1, content = bytes, io_error = e\<rparr>,
         output_opens = True, heap = h, indeterminate = junk\<rparr> = Throws"
  by (simp add: main_def Main_def ReadStreamToBuffer_def)

section \<open>The example of the specification\<close>

text \<open>
  Claim C1, amended. On the bytes of \<open>The cat sat. THE CAT SAT!\<close> the program succeeds
  with three records of two entries each and writes three lines, ordered by the folded
  letters as cat, sat, the. The bytes of a line are those of the first occurrence of
  the word, so the third line is \<open>2 The\<close>.
\<close>

theorem the_cat_sat:
  "Main (run_on (ascii ''The cat sat. THE CAT SAT!'') junk) =
     Returns (NoError, ascii ''2 cat'' @ [10] @ ascii ''2 sat'' @ [10] @ ascii ''2 The'' @ [10]) \<and>
   gather_words (lower_case (map ucast (ascii ''The cat sat. THE CAT SAT!''))) =
     [\<lparr>startLetterIndex = 0, lettersCount = 3, entries = 2\<rparr>,
      \<lparr>startLetterIndex = 4, lettersCount = 3, entries = 2\<rparr>,
      \<lparr>startLetterIndex = 8, lettersCount = 3, entries = 2\<rparr>]"
  by code_simp

text \<open>Claim C1 as stated has \<open>2 the\<close> as the third line; the output differs from it.\<close>

theorem the_cat_sat_not_lower_case:
  "written (Main (run_on (ascii ''The cat sat. THE CAT SAT!'') (\<lambda>_. (0, 0)))) \<noteq>
     ascii ''2 cat'' @ [10] @ ascii ''2 sat'' @ [10] @ ascii ''2 the'' @ [10]"
  by code_simp

section \<open>The recorded byte spans\<close>

lemma ReadUtfLetter_loop_index:
  "ReadUtfLetter_loop buffer count i letter = (True, i', letter') \<Longrightarrow> i < length buffer \<Longrightarrow>
   i' = i + max 1 count \<and> i' \<le> length buffer"
proof (induction buffer count i letter rule: ReadUtfLetter_loop.induct)
  case (1 buffer count i letter)
  obtain ok1 letter1 where n: "InterpretNextUtfByte letter (buffer ! (i + 1)) = (ok1, letter1)"
    by (cases "InterpretNextUtfByte letter (buffer ! (i + 1))")
  show ?case
  proof (cases "count > 1")
    case False
    with "1.prems" show ?thesis
      by (subst (asm) ReadUtfLetter_loop.simps) auto
  next
    case True
    with n "1.prems"(1) have more: "\<not> length buffer \<le> i + 1" and ok1: ok1
      and rec: "ReadUtfLetter_loop buffer (count - 1) (i + 1) letter1 = (True, i', letter')"
      by (subst (asm) ReadUtfLetter_loop.simps, auto split: if_splits)+
    from True more n ok1 rec have "i' = i + 1 + max 1 (count - 1) \<and> i' \<le> length buffer"
      by (intro "1.IH" [of ok1 letter1]) simp_all
    with True show ?thesis by auto
  qed
qed

lemma InterpretFirstUtfByte_count:
  "InterpretFirstUtfByte byte count letter = (ok, count', letter') \<Longrightarrow> count' \<le> max 5 count"
  by (auto simp: InterpretFirstUtfByte_cases split: if_splits)

lemma ReadUtfLetter_index:
  assumes "ReadUtfLetter buffer i count letter = (True, i', letter')"
  shows "i < i' \<and> i' \<le> length buffer \<and> i' - i \<le> max 5 count"
proof -
  from assms have i: "i < length buffer"
    by (auto simp: ReadUtfLetter_def split: if_splits)
  obtain ok count' letter1 where f: "InterpretFirstUtfByte (buffer ! i) count letter = (ok, count', letter1)"
    by (cases "InterpretFirstUtfByte (buffer ! i) count letter")
  with assms i have "ReadUtfLetter_loop buffer count' i letter1 = (True, i', letter')"
    by (auto simp: ReadUtfLetter_def split: if_splits)
  from this i have "i' = i + max 1 count' \<and> i' \<le> length buffer"
    by (rule ReadUtfLetter_loop_index)
  moreover from f have "count' \<le> max 5 count"
    by (rule InterpretFirstUtfByte_count)
  ultimately show ?thesis by auto
qed

lemma ReadUtfLetters_loop_step:
  assumes "ReadUtfLetters_loop buffer junk i ls lis = (True, letters, infos)"
    and "i < length buffer"
  obtains i' letter where
    "ReadUtfLetter buffer i (fst (junk i)) (snd (junk i)) = (True, i', letter)"
    "ReadUtfLetters_loop buffer junk i' (ls @ [letter])
       (lis @ [\<lparr>bufferOffset = i, bytesCount = word_of_nat (i' - i)\<rparr>]) = (True, letters, infos)"
proof -
  obtain ok i' letter where
    r: "ReadUtfLetter buffer i (fst (junk i)) (snd (junk i)) = (ok, i', letter)"
    by (cases "ReadUtfLetter buffer i (fst (junk i)) (snd (junk i))")
  from assms r have ok
    by (subst (asm) ReadUtfLetters_loop.simps) (auto split: if_splits)
  with assms r have "ReadUtfLetters_loop buffer junk i' (ls @ [letter])
       (lis @ [\<lparr>bufferOffset = i, bytesCount = word_of_nat (i' - i)\<rparr>]) = (True, letters, infos)"
    by (subst (asm) ReadUtfLetters_loop.simps) (auto split: if_splits)
  with r \<open>ok\<close> that show thesis by simp
qed

lemma ReadUtfLetters_loop_lengths:
  "ReadUtfLetters_loop buffer junk i ls lis = (True, letters, infos) \<Longrightarrow>
   length lis = length ls \<Longrightarrow> length infos = length letters"
proof (induction "length buffer - i" arbitrary: i ls lis rule: less_induct)
  case less
  show ?case
  proof (cases "i < length buffer")
    case False
    with less.prems show ?thesis
      by (simp add: ReadUtfLetters_loop_done)
  next
    case True
    with less.prems(1) obtain i' letter where
      r: "ReadUtfLetter buffer i (fst (junk i)) (snd (junk i)) = (True, i', letter)"
      and rec: "ReadUtfLetters_loop buffer junk i' (ls @ [letter])
         (lis @ [\<lparr>bufferOffset = i, bytesCount = word_of_nat (i' - i)\<rparr>]) = (True, letters, infos)"
      by (rule ReadUtfLetters_loop_step)
    from r have "i < i'" by (rule ReadUtfLetter_advances)
    with True have "length buffer - i' < length buffer - i" by linarith
    from less.hyps [OF this rec] less.prems(2) show ?thesis by simp
  qed
qed

lemma ReadUtfLetters_loop_spans:
  assumes junk: "\<And>j. fst (junk j) < 256"
  shows "ReadUtfLetters_loop buffer junk i ls lis = (True, letters, infos) \<Longrightarrow>
   i \<le> length buffer \<Longrightarrow> concat (map (letter_bytes buffer) lis) = take i buffer \<Longrightarrow>
   concat (map (letter_bytes buffer) infos) = buffer"
proof (induction "length buffer - i" arbitrary: i ls lis rule: less_induct)
  case less
  show ?case
  proof (cases "i < length buffer")
    case False
    with less.prems show ?thesis
      by (simp add: ReadUtfLetters_loop_done)
  next
    case True
    with less.prems(1) obtain i' letter where
      r: "ReadUtfLetter buffer i (fst (junk i)) (snd (junk i)) = (True, i', letter)"
      and rec: "ReadUtfLetters_loop buffer junk i' (ls @ [letter])
         (lis @ [\<lparr>bufferOffset = i, bytesCount = word_of_nat (i' - i)\<rparr>]) = (True, letters, infos)"
      by (rule ReadUtfLetters_loop_step)
    from r have i': "i < i' \<and> i' \<le> length buffer \<and> i' - i \<le> max 5 (fst (junk i))"
      by (rule ReadUtfLetter_index)
    with junk [of i] have small: "i' - i < 256" by linarith
    then have "unat (word_of_nat (i' - i) :: u8) = i' - i"
      by (simp add: unat_of_nat)
    then have "letter_bytes buffer \<lparr>bufferOffset = i, bytesCount = word_of_nat (i' - i)\<rparr>
        = take (i' - i) (drop i buffer)"
      by (simp add: letter_bytes_def)
    moreover have "take i buffer @ take (i' - i) (drop i buffer) = take i' buffer"
      using i' take_add [of i "i' - i" buffer] by simp
    ultimately have spans: "concat (map (letter_bytes buffer)
        (lis @ [\<lparr>bufferOffset = i, bytesCount = word_of_nat (i' - i)\<rparr>])) = take i' buffer"
      using less.prems(3) by simp
    from i' True have "length buffer - i' < length buffer - i" by linarith
    from less.hyps [OF this rec _ spans] i' show ?thesis by simp
  qed
qed

text \<open>
  When every indeterminate count is below 256, no recorded length is cut by the cast to
  \<^verbatim>\<open>uint8_t\<close>, and the spans of an accepted buffer give back the buffer.
\<close>

lemma spans_round_trip:
  assumes "\<And>j. fst (junk j) < 256"
    and "ReadUtfLetters buffer junk [] [] = (True, letters, infos)"
  shows "concat (map (letter_bytes buffer) infos) = buffer"
  using ReadUtfLetters_loop_spans [of junk buffer 0 "[]" "[]" letters infos] assms
  by (simp add: ReadUtfLetters_def)

text \<open>
  Under the same condition the span recorded for a letter is the bytes that the decoder
  read for it: \<^verbatim>\<open>ReadUtfLetter\<close>, started at the offset of the span, returns the letter and
  stops at the end of the span.
\<close>

lemma ReadUtfLetters_loop_decoded:
  assumes junk: "\<And>j. fst (junk j) < 256"
  shows "ReadUtfLetters_loop buffer junk i ls lis = (True, letters, infos) \<Longrightarrow>
   length lis = length ls \<Longrightarrow>
   (\<forall>k<length lis.
      ReadUtfLetter buffer (bufferOffset (lis ! k)) (fst (junk (bufferOffset (lis ! k))))
          (snd (junk (bufferOffset (lis ! k))))
        = (True, bufferOffset (lis ! k) + unat (bytesCount (lis ! k)), ls ! k)) \<Longrightarrow>
   (\<forall>k<length infos.
      ReadUtfLetter buffer (bufferOffset (infos ! k)) (fst (junk (bufferOffset (infos ! k))))
          (snd (junk (bufferOffset (infos ! k))))
        = (True, bufferOffset (infos ! k) + unat (bytesCount (infos ! k)), letters ! k))"
proof (induction "length buffer - i" arbitrary: i ls lis rule: less_induct)
  case less
  show ?case
  proof (cases "i < length buffer")
    case False
    with less.prems show ?thesis
      by (simp add: ReadUtfLetters_loop_done)
  next
    case True
    with less.prems(1) obtain i' letter where
      r: "ReadUtfLetter buffer i (fst (junk i)) (snd (junk i)) = (True, i', letter)"
      and rec: "ReadUtfLetters_loop buffer junk i' (ls @ [letter])
         (lis @ [\<lparr>bufferOffset = i, bytesCount = word_of_nat (i' - i)\<rparr>]) = (True, letters, infos)"
      by (rule ReadUtfLetters_loop_step)
    from r have i': "i < i' \<and> i' \<le> length buffer \<and> i' - i \<le> max 5 (fst (junk i))"
      by (rule ReadUtfLetter_index)
    with junk [of i] have small: "i' - i < 256" by linarith
    then have u: "unat (word_of_nat (i' - i) :: u8) = i' - i"
      by (simp add: unat_of_nat)
    from i' True have m: "length buffer - i' < length buffer - i" by linarith
    have len: "length (lis @ [\<lparr>bufferOffset = i, bytesCount = word_of_nat (i' - i)\<rparr>])
        = length (ls @ [letter])"
      using less.prems(2) by simp
    show ?thesis
    proof (rule less.hyps [OF m rec len], intro allI impI)
      fix k assume k: "k < length (lis @ [\<lparr>bufferOffset = i, bytesCount = word_of_nat (i' - i)\<rparr>])"
      let ?lis = "lis @ [\<lparr>bufferOffset = i, bytesCount = word_of_nat (i' - i)\<rparr>]"
      show "ReadUtfLetter buffer (bufferOffset (?lis ! k)) (fst (junk (bufferOffset (?lis ! k))))
          (snd (junk (bufferOffset (?lis ! k))))
        = (True, bufferOffset (?lis ! k) + unat (bytesCount (?lis ! k)), (ls @ [letter]) ! k)"
      proof (cases "k < length lis")
        case True
        with less.prems(2,3) show ?thesis by (simp add: nth_append)
      next
        case False
        with k have "k = length lis" by simp
        with less.prems(2) r u i' show ?thesis by (simp add: nth_append)
      qed
    qed
  qed
qed

lemma spans_of_decoded_letters:
  assumes "\<And>j. fst (junk j) < 256"
    and "ReadUtfLetters buffer junk [] [] = (True, letters, infos)"
    and "k < length infos"
  shows "ReadUtfLetter buffer (bufferOffset (infos ! k)) (fst (junk (bufferOffset (infos ! k))))
          (snd (junk (bufferOffset (infos ! k))))
        = (True, bufferOffset (infos ! k) + unat (bytesCount (infos ! k)), letters ! k) \<and>
     letter_bytes buffer (infos ! k)
        = take (unat (bytesCount (infos ! k))) (drop (bufferOffset (infos ! k)) buffer)"
  using ReadUtfLetters_loop_decoded [of junk buffer 0 "[]" "[]" letters infos] assms
  by (simp add: ReadUtfLetters_def letter_bytes_def)

text \<open>
  Claim C6 at a buffer that starts with \<open>0xBF\<close>, followed by 255 continuation bytes. The
  first byte leaves the byte count unassigned; when the
  indeterminate count is 256 the decoder accepts the buffer as one letter of 256 bytes,
  the cast to \<^verbatim>\<open>uint8_t\<close> records a span of 0 bytes, and the spans give back the empty
  sequence, not the buffer.
\<close>

theorem spans_truncated:
  "fst (ReadUtfLetters (0xBF # replicate 255 0x80) (\<lambda>_. (256, 0)) [] []) \<and>
   concat (map (letter_bytes (0xBF # replicate 255 0x80))
     (snd (snd (ReadUtfLetters (0xBF # replicate 255 0x80) (\<lambda>_. (256, 0)) [] [])))) = []"
  by code_simp

section \<open>Input without letters\<close>

lemma lower_case_loop_alphabets:
  "lower_case_loop alphabets letter =
     (if 65 \<le> letter \<and> letter < 97 then letter + 32
      else if 1040 \<le> letter \<and> letter < 1072 then letter + 32
      else letter)"
  by (simp add: alphabets_def)

lemma lower_case_not_alpha: "\<not> IsAlpha letter \<Longrightarrow> lower_case_loop alphabets letter = letter"
  by (auto simp: lower_case_loop_alphabets IsAlpha_iff word_less_nat_alt word_le_nat_alt)

lemma lower_case_no_alpha:
  "\<forall>letter\<in>set letters. \<not> IsAlpha letter \<Longrightarrow> lower_case letters = letters"
  by (simp add: lower_case_def lower_case_not_alpha map_idI)

lemma gather_loop_no_alpha:
  "\<forall>k. i \<le> k \<and> k < length letters \<longrightarrow> \<not> IsAlpha (letters ! k) \<Longrightarrow>
   gather_loop letters i (-1) words = (-1, words)"
proof (induction "length letters - i" arbitrary: i rule: less_induct)
  case less
  show ?case
  proof (cases "i < length letters")
    case False
    then show ?thesis
      by (subst gather_loop.simps) simp
  next
    case True
    with less.prems have "\<not> IsAlpha (letters ! i)" by simp
    with True have "gather_loop letters i (-1) words = gather_loop letters (i + 1) (-1) words"
      by (subst gather_loop.simps) simp
    moreover from True have "length letters - (i + 1) < length letters - i" by linarith
    then have "gather_loop letters (i + 1) (-1) words = (-1, words)"
      using less.prems by (intro less.hyps) simp_all
    ultimately show ?thesis by simp
  qed
qed

lemma gather_words_no_alpha:
  "\<forall>letter\<in>set letters. \<not> IsAlpha letter \<Longrightarrow> gather_words letters = []"
  using gather_loop_no_alpha [of 0 letters "[]"]
  by (simp add: gather_words_def)

text \<open>
  Claim C9. When the input is read and decoded and none of its letters is alphabetic,
  the program writes nothing and returns \<^verbatim>\<open>NoError\<close>.
\<close>

theorem no_alpha_empty_output:
  assumes "argc run = 3" and "input_file run = Some input" and "output_opens run"
    and "ReadStreamToBuffer input (heap run) = Returns (Some buffer)"
    and "ReadUtfLetters buffer (indeterminate run) [] [] = (True, letters, lettersInfos)"
    and "\<forall>letter\<in>set letters. \<not> IsAlpha letter"
  shows "Main run = Returns (NoError, [])"
  using assms
  by (simp add: Main_def lower_case_no_alpha gather_words_no_alpha sort_words_def)

theorem no_alpha_empty_output_witness:
  "ReadStreamToBuffer
     \<lparr>tellg = int (length (ascii ''12, 34!'')), content = ascii ''12, 34!'', io_error = False\<rparr>
     (length (ascii ''12, 34!''))
     = Returns (Some (ascii ''12, 34!'')) \<and>
   ReadUtfLetters (ascii ''12, 34!'') (\<lambda>_. (0, 0)) [] []
     = (True, map ucast (ascii ''12, 34!''),
        map (\<lambda>i. \<lparr>bufferOffset = i, bytesCount = 1\<rparr>) [0..<7]) \<and>
   list_all (\<lambda>letter. \<not> IsAlpha letter) (map ucast (ascii ''12, 34!'')) \<and>
   Main (run_on (ascii ''12, 34!'') (\<lambda>_. (0, 0))) = Returns (NoError, [])"
proof -
  let ?buffer = "ascii ''12, 34!''"
  have read: "ReadStreamToBuffer
     \<lparr>tellg = int (length ?buffer), content = ?buffer, io_error = False\<rparr> (length ?buffer)
     = Returns (Some ?buffer)"
    by code_simp
  have decode: "ReadUtfLetters ?buffer (\<lambda>_. (0, 0)) [] []
     = (True, map ucast ?buffer,
        map (\<lambda>i. \<lparr>bufferOffset = i, bytesCount = 1\<rparr>) [0..<7])"
    by code_simp
  have no_alpha: "list_all (\<lambda>letter. \<not> IsAlpha letter) (map ucast ?buffer)"
    by code_simp
  then have all: "\<forall>letter\<in>set (map ucast ?buffer). \<not> IsAlpha letter"
    by (simp only: list_all_iff)
  have "Main (run_on ?buffer (\<lambda>_. (0, 0))) = Returns (NoError, [])"
  proof (rule no_alpha_empty_output
      [where input = "\<lparr>tellg = int (length ?buffer), content = ?buffer, io_error = False\<rparr>"
        and buffer = ?buffer and letters = "map ucast ?buffer"
        and lettersInfos = "map (\<lambda>i. \<lparr>bufferOffset = i, bytesCount = 1\<rparr>) [0..<7]"])
    show "argc (run_on ?buffer (\<lambda>_. (0, 0))) = 3"
      by (simp add: run_on_def)
    show "input_file (run_on ?buffer (\<lambda>_. (0, 0)))
        = Some \<lparr>tellg = int (length ?buffer), content = ?buffer, io_error = False\<rparr>"
      by (simp add: run_on_def)
    show "output_opens (run_on ?buffer (\<lambda>_. (0, 0)))"
      by (simp add: run_on_def)
    show "ReadStreamToBuffer
        \<lparr>tellg = int (length ?buffer), content = ?buffer, io_error = False\<rparr>
        (heap (run_on ?buffer (\<lambda>_. (0, 0)))) = Returns (Some ?buffer)"
      using read by (simp only: run_on_def Invocation.simps)
    show "ReadUtfLetters ?buffer (indeterminate (run_on ?buffer (\<lambda>_. (0, 0)))) [] []
        = (True, map ucast ?buffer,
           map (\<lambda>i. \<lparr>bufferOffset = i, bytesCount = 1\<rparr>) [0..<7])"
      using decode by (simp only: run_on_def Invocation.simps)
    show "\<forall>letter\<in>set (map ucast ?buffer). \<not> IsAlpha letter"
      by (rule all)
  qed
  with read decode no_alpha show ?thesis by blast
qed

section \<open>The words collection\<close>

subsection \<open>registerWord\<close>

lemma theSame_loop_iff:
  "theSame_loop letters f word i \<longleftrightarrow>
     (\<forall>k. i \<le> k \<and> k < lettersCount word \<longrightarrow>
        letters ! (f + k) = letters ! (startLetterIndex word + k))"
proof (induction "lettersCount word - i" arbitrary: i rule: less_induct)
  case less
  show ?case
  proof (cases "i < lettersCount word")
    case False
    then show ?thesis
      by (subst theSame_loop.simps) auto
  next
    case True
    then have "lettersCount word - (i + 1) < lettersCount word - i" by linarith
    then have IH: "theSame_loop letters f word (i + 1) \<longleftrightarrow>
       (\<forall>k. i + 1 \<le> k \<and> k < lettersCount word \<longrightarrow>
          letters ! (f + k) = letters ! (startLetterIndex word + k))"
      by (rule less.hyps)
    have split: "(\<forall>k. i \<le> k \<and> k < lettersCount word \<longrightarrow>
          letters ! (f + k) = letters ! (startLetterIndex word + k)) \<longleftrightarrow>
        letters ! (f + i) = letters ! (startLetterIndex word + i) \<and>
        (\<forall>k. i + 1 \<le> k \<and> k < lettersCount word \<longrightarrow>
          letters ! (f + k) = letters ! (startLetterIndex word + k))" (is "?L \<longleftrightarrow> ?R")
    proof
      assume ?L
      with True show ?R by auto
    next
      assume R: ?R
      show ?L
      proof (intro allI impI)
        fix k assume k: "i \<le> k \<and> k < lettersCount word"
        show "letters ! (f + k) = letters ! (startLetterIndex word + k)"
        proof (cases "k = i")
          case True
          with R show ?thesis by simp
        next
          case False
          with k have "i + 1 \<le> k \<and> k < lettersCount word" by linarith
          with R show ?thesis by blast
        qed
      qed
    qed
    from True IH split show ?thesis
      by (subst theSame_loop.simps) auto
  qed
qed

lemma word_letters_length:
  "startLetterIndex word + lettersCount word \<le> length letters \<Longrightarrow>
   length (word_letters letters word) = lettersCount word"
  by (simp add: word_letters_def)

lemma same_word_iff:
  assumes "f + n \<le> length letters"
    and "startLetterIndex word + lettersCount word \<le> length letters"
  shows "lettersCount word = n \<and> theSame_loop letters f word 0 \<longleftrightarrow>
         word_letters letters word = take n (drop f letters)"
proof -
  have "word_letters letters word = take n (drop f letters) \<longleftrightarrow>
        lettersCount word = n \<and>
        (\<forall>k<n. letters ! (startLetterIndex word + k) = letters ! (f + k))"
    using assms by (auto simp: word_letters_def list_eq_iff_nth_eq)
  then show ?thesis
    by (auto simp: theSame_loop_iff)
qed

lemma registerWord_new:
  assumes "f + n \<le> length letters"
  shows "\<forall>word\<in>set words. startLetterIndex word + lettersCount word \<le> length letters \<Longrightarrow>
     \<forall>word\<in>set words. word_letters letters word \<noteq> take n (drop f letters) \<Longrightarrow>
     registerWord letters words f n =
       words @ [\<lparr>startLetterIndex = f, lettersCount = n, entries = 1\<rparr>]"
proof (induction words)
  case Nil
  show ?case by simp
next
  case (Cons word words)
  from Cons.prems assms have "\<not> (lettersCount word = n \<and> theSame_loop letters f word 0)"
    by (simp add: same_word_iff)
  with Cons show ?case by auto
qed

lemma registerWord_found:
  assumes "f + n \<le> length letters"
  shows "\<forall>word\<in>set words. startLetterIndex word + lettersCount word \<le> length letters \<Longrightarrow>
     k < length words \<Longrightarrow> word_letters letters (words ! k) = take n (drop f letters) \<Longrightarrow>
     \<forall>j<k. word_letters letters (words ! j) \<noteq> take n (drop f letters) \<Longrightarrow>
     registerWord letters words f n = words[k := (words ! k)\<lparr>entries := entries (words ! k) + 1\<rparr>]"
proof (induction words arbitrary: k)
  case Nil
  then show ?case by simp
next
  case (Cons word words)
  show ?case
  proof (cases k)
    case 0
    with Cons.prems assms have "lettersCount word = n \<and> theSame_loop letters f word 0"
      by (simp add: same_word_iff)
    with 0 show ?thesis by simp
  next
    case (Suc k')
    with Cons.prems(4) have "word_letters letters ((word # words) ! 0) \<noteq> take n (drop f letters)"
      by blast
    with Cons.prems assms have no: "\<not> (lettersCount word = n \<and> theSame_loop letters f word 0)"
      by (simp add: same_word_iff)
    from Cons.prems Suc have "\<forall>j<k'. word_letters letters (words ! j) \<noteq> take n (drop f letters)"
      by auto
    with Cons.prems Suc have "registerWord letters words f n
        = words[k' := (words ! k')\<lparr>entries := entries (words ! k') + 1\<rparr>]"
      by (intro Cons.IH) simp_all
    with no Suc show ?thesis by auto
  qed
qed

lemma first_match:
  "\<exists>x\<in>set xs. P x \<Longrightarrow> \<exists>k<length xs. P (xs ! k) \<and> (\<forall>j<k. \<not> P (xs ! j))"
proof (induction xs)
  case Nil
  then show ?case by simp
next
  case (Cons y ys)
  show ?case
  proof (cases "P y")
    case True
    then show ?thesis by (intro exI [of _ 0]) simp
  next
    case False
    with Cons obtain k where k: "k < length ys" "P (ys ! k)" "\<forall>j<k. \<not> P (ys ! j)" by auto
    have "\<forall>j<Suc k. \<not> P ((y # ys) ! j)"
    proof (intro allI impI)
      fix j assume "j < Suc k"
      with k False show "\<not> P ((y # ys) ! j)" by (cases j) auto
    qed
    with k show ?thesis by (intro exI [of _ "Suc k"]) simp
  qed
qed

lemma word_letters_entries [simp]:
  "word_letters letters (word\<lparr>entries := e\<rparr>) = word_letters letters word"
  by (simp add: word_letters_def)

lemma map_word_letters_update:
  "k < length words \<Longrightarrow>
   map (word_letters letters) (words[k := (words ! k)\<lparr>entries := e\<rparr>])
     = map (word_letters letters) words"
  by (simp add: map_update list_update_same_conv)

text \<open>The two outcomes of \<^verbatim>\<open>registerWord\<close> on records that lie inside the letters.\<close>

lemma registerWord_cases:
  assumes range: "\<forall>word\<in>set words. startLetterIndex word + lettersCount word \<le> length letters"
    and new: "f + n \<le> length letters"
  obtains
    (found) k where "k < length words"
      "word_letters letters (words ! k) = take n (drop f letters)"
      "\<forall>j<k. word_letters letters (words ! j) \<noteq> take n (drop f letters)"
      "registerWord letters words f n = words[k := (words ! k)\<lparr>entries := entries (words ! k) + 1\<rparr>]"
  | (appended) "\<forall>word\<in>set words. word_letters letters word \<noteq> take n (drop f letters)"
      "registerWord letters words f n = words @ [\<lparr>startLetterIndex = f, lettersCount = n, entries = 1\<rparr>]"
proof (cases "\<exists>word\<in>set words. word_letters letters word = take n (drop f letters)")
  case True
  then have "\<exists>k<length words. word_letters letters (words ! k) = take n (drop f letters) \<and>
      (\<forall>j<k. \<not> word_letters letters (words ! j) = take n (drop f letters))"
    by (rule first_match)
  then obtain k where 1: "k < length words"
    and 2: "word_letters letters (words ! k) = take n (drop f letters)"
    and 3: "\<forall>j<k. word_letters letters (words ! j) \<noteq> take n (drop f letters)"
    by blast
  from new range 1 2 3 have "registerWord letters words f n
      = words[k := (words ! k)\<lparr>entries := entries (words ! k) + 1\<rparr>]"
    by (rule registerWord_found)
  with 1 2 3 show thesis by (rule found)
next
  case False
  then have no: "\<forall>word\<in>set words. word_letters letters word \<noteq> take n (drop f letters)"
    by blast
  from new range no have "registerWord letters words f n
      = words @ [\<lparr>startLetterIndex = f, lettersCount = n, entries = 1\<rparr>]"
    by (rule registerWord_new)
  with no show thesis by (rule appended)
qed

lemma registerWord_invariant:
  assumes inv: "words_invariant letters words" and new: "f + n \<le> length letters"
  shows "words_invariant letters (registerWord letters words f n)"
proof -
  from inv have range: "\<forall>word\<in>set words. startLetterIndex word + lettersCount word \<le> length letters"
    by (simp add: words_invariant_def)
  from range new show ?thesis
  proof (cases rule: registerWord_cases)
    case (found k)
    let ?w = "(words ! k)\<lparr>entries := entries (words ! k) + 1\<rparr>"
    from found(1) inv have wk: "startLetterIndex (words ! k) + lettersCount (words ! k) \<le> length letters"
      by (simp add: words_invariant_def)
    have "\<forall>word\<in>set (words[k := ?w]).
        startLetterIndex word + lettersCount word \<le> length letters \<and> 1 \<le> entries word"
    proof
      fix word assume "word \<in> set (words[k := ?w])"
      then have "word \<in> insert ?w (set words)"
        using set_update_subset_insert by fastforce
      with inv wk show "startLetterIndex word + lettersCount word \<le> length letters \<and> 1 \<le> entries word"
        by (auto simp: words_invariant_def)
    qed
    moreover from found(1) inv have "distinct (map (word_letters letters) (words[k := ?w]))"
      by (simp add: map_word_letters_update words_invariant_def)
    ultimately show ?thesis
      by (simp add: found(4) words_invariant_def)
  next
    case appended
    with inv new show ?thesis
      by (auto simp: words_invariant_def word_letters_def)
  qed
qed

subsection \<open>The calls that the program makes\<close>

text \<open>
  Below \<open>2 ^ 31\<close> the conversions through \<^verbatim>\<open>int\<close> are exact. At \<open>2 ^ 31\<close> letters they are
  not: the index \<open>2 ^ 31\<close> becomes a negative \<^verbatim>\<open>firstLetter\<close>, and so a start beyond the
  letters, and the index \<open>2 ^ 32 - 1\<close> becomes the value -1 that stands for no open word.
  The statements about the words that the program gathers are for fewer letters.
\<close>

lemma firstLetter_wraps:
  "int_of_size_t 2147483648 = - 2147483648 \<and>
   size_t_of_int (- 2147483648) = 18446744071562067968 \<and>
   int_of_size_t 4294967295 = - 1"
  by (simp add: int_of_size_t_def size_t_of_int_def)

lemma int_small: "(i::nat) < 2 ^ 31 \<Longrightarrow> int i < 2 ^ 31 \<and> int i < 2 ^ 64"
proof -
  assume "i < 2 ^ 31"
  then have "int i < int (2 ^ 31)" by (simp only: of_nat_less_iff)
  then have a: "int i < 2 ^ 31" by (simp only: of_nat_power of_nat_numeral)
  have "(2::int) ^ 31 \<le> 2 ^ 64" by (rule power_increasing) simp_all
  with a have "int i < 2 ^ 64" by (rule less_le_trans)
  with a show ?thesis by (rule conjI)
qed

lemma int_of_size_t_small: "i < 2 ^ 31 \<Longrightarrow> int_of_size_t i = int i"
proof -
  assume "i < 2 ^ 31"
  then have "int i < 2 ^ 31" by (simp only: int_small)
  moreover have "- (2 ^ 31) \<le> int i"
    by (rule order_trans [of _ 0]) simp_all
  ultimately have "signed_take_bit 31 (int i) = int i"
    by (intro signed_take_bit_int_eq_self)
  then show ?thesis
    by (simp add: int_of_size_t_def signed_of_nat)
qed

lemma size_t_of_int_small: "a < 2 ^ 31 \<Longrightarrow> size_t_of_int (int a) = a"
proof -
  assume "a < 2 ^ 31"
  then have "int a < 2 ^ 64" by (simp only: int_small)
  then have "int a mod 2 ^ 64 = int a" by (intro mod_pos_pos_trivial) simp_all
  then show ?thesis by (simp only: size_t_of_int_def nat_int)
qed

lemma size_t_minus_int_small: "a \<le> i \<Longrightarrow> i < 2 ^ 31 \<Longrightarrow> size_t_minus_int i (int a) = i - a"
proof -
  assume a: "a \<le> i" and i: "i < 2 ^ 31"
  from a have eq: "int i - int a = int (i - a)" by (simp only: of_nat_diff)
  have "i - a \<le> i" by (rule diff_le_self)
  from this i have "i - a < 2 ^ 31" by (rule le_less_trans)
  then have "int (i - a) < 2 ^ 64" by (simp only: int_small)
  then have "int (i - a) mod 2 ^ 64 = int (i - a)" by (intro mod_pos_pos_trivial) simp_all
  then show ?thesis by (simp only: size_t_minus_int_def eq nat_int)
qed

lemma register_all_simps [simp]:
  "register_all letters words [] = words"
  "register_all letters words (call # calls) =
     register_all letters (registerWord letters words (fst call) (snd call)) calls"
  "register_all letters words (calls @ [call]) =
     registerWord letters (register_all letters words calls) (fst call) (snd call)"
  by (simp_all add: register_all_def)

lemma gather_loop_calls:
  "(case gather_loop letters i f words of
      (f', words') \<Rightarrow>
        if f' \<noteq> -1
        then registerWord letters words' (size_t_of_int f') (size_t_minus_int (length letters) f')
        else words')
   = register_all letters words (gather_calls letters i f)"
proof (induction "length letters - i" arbitrary: i f words rule: less_induct)
  case less
  show ?case
  proof (cases "i < length letters")
    case False
    then show ?thesis
      by (subst gather_loop.simps, subst gather_calls.simps) simp
  next
    case True
    then have "length letters - Suc i < length letters - i" by linarith
    note IH = less.hyps [OF this]
    from True show ?thesis
      by (subst gather_loop.simps, subst gather_calls.simps) (simp add: IH)
  qed
qed

lemma gather_words_calls:
  "gather_words letters = register_all letters [] (gather_calls letters 0 (-1))"
  using gather_loop_calls [of letters 0 "-1" "[]"]
  by (simp add: gather_words_def)

lemma gather_calls_range:
  assumes small: "length letters < 2 ^ 31"
  shows "i \<le> length letters \<Longrightarrow> f = -1 \<or> (\<exists>a<i. f = int a) \<Longrightarrow>
    \<forall>call\<in>set (gather_calls letters i f).
       fst call + snd call \<le> length letters \<and> 1 \<le> snd call"
proof (induction "length letters - i" arbitrary: i f rule: less_induct)
  case less
  have conv: "size_t_of_int (int a) = a \<and> size_t_minus_int k (int a) = k - a"
    if "a < k" "k \<le> length letters" for a k
  proof -
    from that(2) small have k: "k < 2 ^ 31" by (rule le_less_trans)
    from that(1) k have "a < 2 ^ 31" by (rule less_trans)
    with that k show ?thesis
      by (simp only: size_t_of_int_small size_t_minus_int_small less_imp_le)
  qed
  show ?case
  proof (cases "i < length letters")
    case False
    with less.prems have i: "i = length letters" by simp
    show ?thesis
    proof (cases "f = -1")
      case True
      with False show ?thesis by (subst gather_calls.simps) simp
    next
      case False
      with less.prems obtain a where a: "a < i" "f = int a" by blast
      moreover from a have "1 \<le> i - a" by linarith
      ultimately show ?thesis
        using less.prems conv [of a i] i False
        by (subst gather_calls.simps) simp
    qed
  next
    case True
    then have dec: "length letters - Suc i < length letters - i" by linarith
    from True have next_le: "Suc i \<le> length letters" by simp
    from True small have i31: "i < 2 ^ 31" by (rule less_trans)
    have rec: "\<forall>call\<in>set (gather_calls letters (Suc i) f').
       fst call + snd call \<le> length letters \<and> 1 \<le> snd call"
      if "f' = -1 \<or> (\<exists>a<Suc i. f' = int a)" for f'
      using dec next_le that by (rule less.hyps)
    show ?thesis
    proof (cases "f = -1")
      case minus: True
      have "\<exists>a<Suc i. int_of_size_t i = int a"
        using i31 by (intro exI [of _ i]) (simp add: int_of_size_t_small)
      with minus True rec [of "-1"] rec [of "int_of_size_t i"] show ?thesis
        by (subst gather_calls.simps) simp
    next
      case False
      with less.prems obtain a where a: "a < i" "f = int a" by blast
      then have "\<exists>b<Suc i. f = int b" by (intro exI [of _ a]) simp
      moreover from a have "1 \<le> i - a" by linarith
      ultimately show ?thesis
        using False True a conv [of a i] rec [of "-1"] rec [of f]
        by (subst gather_calls.simps) simp
    qed
  qed
qed

lemma first_call_append:
  "first_call letters calls word \<Longrightarrow> first_call letters (calls @ [call]) word"
proof -
  assume "first_call letters calls word"
  then obtain k where k: "k < length calls" "calls ! k = (startLetterIndex word, lettersCount word)"
    "\<forall>j<k. call_letters letters (calls ! j) \<noteq> call_letters letters (calls ! k)"
    by (auto simp: first_call_def)
  have "\<forall>j<k. call_letters letters ((calls @ [call]) ! j) \<noteq> call_letters letters ((calls @ [call]) ! k)"
  proof (intro allI impI)
    fix j assume "j < k"
    with k show "call_letters letters ((calls @ [call]) ! j) \<noteq> call_letters letters ((calls @ [call]) ! k)"
      by (simp add: nth_append)
  qed
  with k show ?thesis
    unfolding first_call_def by (intro exI [of _ k]) (simp add: nth_append)
qed

lemma first_call_entries [simp]:
  "first_call letters calls (word\<lparr>entries := e\<rparr>) = first_call letters calls word"
  by (simp add: first_call_def)

lemma register_all_first_calls:
  "\<forall>call\<in>set calls. fst call + snd call \<le> length letters \<Longrightarrow>
   words_invariant letters (register_all letters [] calls) \<and>
   (\<forall>word\<in>set (register_all letters [] calls). first_call letters calls word) \<and>
   (\<forall>call\<in>set calls. \<exists>word\<in>set (register_all letters [] calls).
      word_letters letters word = call_letters letters call)"
proof (induction calls rule: rev_induct)
  case Nil
  show ?case by (simp add: words_invariant_def)
next
  case (snoc call calls)
  let ?ws = "register_all letters [] calls"
  let ?seg = "take (snd call) (drop (fst call) letters)"
  from snoc have inv: "words_invariant letters ?ws"
    and first: "\<forall>word\<in>set ?ws. first_call letters calls word"
    and cover: "\<forall>c\<in>set calls. \<exists>word\<in>set ?ws. word_letters letters word = call_letters letters c"
    by simp_all
  from snoc.prems have new: "fst call + snd call \<le> length letters" by simp
  from inv have range: "\<forall>word\<in>set ?ws. startLetterIndex word + lettersCount word \<le> length letters"
    by (simp add: words_invariant_def)
  have inv': "words_invariant letters (registerWord letters ?ws (fst call) (snd call))"
    using inv new by (rule registerWord_invariant)
  from range new have rest:
    "(\<forall>word\<in>set (registerWord letters ?ws (fst call) (snd call)).
        first_call letters (calls @ [call]) word) \<and>
     (\<forall>c\<in>set (calls @ [call]). \<exists>word\<in>set (registerWord letters ?ws (fst call) (snd call)).
        word_letters letters word = call_letters letters c)"
  proof (cases rule: registerWord_cases)
    case (found k)
    let ?w = "(?ws ! k)\<lparr>entries := entries (?ws ! k) + 1\<rparr>"
    have mem: "word \<in> set (?ws[k := ?w]) \<longleftrightarrow>
        word = ?w \<or> (\<exists>j<length ?ws. j \<noteq> k \<and> word = ?ws ! j)" for word
      using found(1) by (auto simp: in_set_conv_nth nth_list_update)
    have a: "\<forall>word\<in>set (?ws[k := ?w]). first_call letters (calls @ [call]) word"
    proof
      fix word assume "word \<in> set (?ws[k := ?w])"
      then consider "word = ?w" | j where "j < length ?ws" "word = ?ws ! j"
        using mem by blast
      then show "first_call letters (calls @ [call]) word"
      proof cases
        case 1
        from found(1) first have "first_call letters calls (?ws ! k)" by simp
        with 1 show ?thesis by (simp add: first_call_append)
      next
        case 2
        with first have "first_call letters calls word" by simp
        then show ?thesis by (rule first_call_append)
      qed
    qed
    have b: "\<forall>c\<in>set (calls @ [call]). \<exists>word\<in>set (?ws[k := ?w]).
        word_letters letters word = call_letters letters c"
    proof
      fix c assume "c \<in> set (calls @ [call])"
      then consider "c = call" | "c \<in> set calls" by auto
      then show "\<exists>word\<in>set (?ws[k := ?w]). word_letters letters word = call_letters letters c"
      proof cases
        case 1
        from found(1) have "?w \<in> set (?ws[k := ?w])" by (simp add: set_update_memI)
        moreover from 1 found(2) have "word_letters letters ?w = call_letters letters c"
          by (simp add: call_letters_def)
        ultimately show ?thesis by blast
      next
        case 2
        with cover obtain word where w: "word \<in> set ?ws"
          "word_letters letters word = call_letters letters c" by blast
        then obtain j where j: "j < length ?ws" "?ws ! j = word"
          by (auto simp: in_set_conv_nth)
        show ?thesis
        proof (cases "j = k")
          case True
          from found(1) have "?w \<in> set (?ws[k := ?w])" by (simp add: set_update_memI)
          moreover from True j w have "word_letters letters ?w = call_letters letters c" by simp
          ultimately show ?thesis by blast
        next
          case False
          with j mem [of word] have "word \<in> set (?ws[k := ?w])" by blast
          with w show ?thesis by blast
        qed
      qed
    qed
    from a b show ?thesis by (simp only: found(4))
  next
    case appended
    let ?new = "\<lparr>startLetterIndex = fst call, lettersCount = snd call, entries = 1\<rparr>"
    have none: "\<forall>j<length calls. call_letters letters (calls ! j) \<noteq> call_letters letters call"
    proof (intro allI impI notI)
      fix j assume "j < length calls" and eq: "call_letters letters (calls ! j) = call_letters letters call"
      then have "calls ! j \<in> set calls" by simp
      with cover obtain word where "word \<in> set ?ws"
        "word_letters letters word = call_letters letters (calls ! j)" by blast
      with eq appended(1) show False by (simp add: call_letters_def)
    qed
    have "first_call letters (calls @ [call]) ?new"
      unfolding first_call_def
    proof (intro exI [of _ "length calls"] conjI allI impI)
      fix j assume "j < length calls"
      with none show "call_letters letters ((calls @ [call]) ! j)
          \<noteq> call_letters letters ((calls @ [call]) ! length calls)"
        by (simp add: nth_append)
    qed simp_all
    with first have a: "\<forall>word\<in>set (?ws @ [?new]). first_call letters (calls @ [call]) word"
      by (auto intro: first_call_append)
    have "word_letters letters ?new = call_letters letters call"
      by (simp add: word_letters_def call_letters_def)
    with cover have b: "\<forall>c\<in>set (calls @ [call]). \<exists>word\<in>set (?ws @ [?new]).
        word_letters letters word = call_letters letters c"
      by auto
    from a b show ?thesis by (simp only: appended(2))
  qed
  from inv' rest show ?case by simp
qed

lemma set_insert_word: "set (insert_word letters w xs) = insert w (set xs)"
  by (induction xs) auto

lemma set_sort_words: "set (sort_words letters words) = set words"
  by (induction words) (simp_all add: sort_words_def set_insert_word)

lemma word_bytes_spans:
  assumes "startLetterIndex word + lettersCount word \<le> length lettersInfos"
  shows "word_bytes buffer lettersInfos word =
    concat (map (letter_bytes buffer)
      (take (lettersCount word) (drop (startLetterIndex word) lettersInfos)))"
proof -
  have "map (\<lambda>i. letter_bytes buffer (lettersInfos ! (startLetterIndex word + i)))
          [0..<lettersCount word]
        = map (letter_bytes buffer)
            (take (lettersCount word) (drop (startLetterIndex word) lettersInfos))"
    using assms by (intro nth_equalityI) simp_all
  then show ?thesis by (simp add: word_bytes_def)
qed

lemma gather_words_first_calls:
  assumes "length letters < 2 ^ 31"
  shows "words_invariant letters (gather_words letters) \<and>
    (\<forall>word\<in>set (gather_words letters). first_call letters (gather_calls letters 0 (-1)) word)"
proof -
  have "\<forall>call\<in>set (gather_calls letters 0 (-1)).
      fst call + snd call \<le> length letters \<and> 1 \<le> snd call"
    using assms by (rule gather_calls_range) simp_all
  then have "\<forall>call\<in>set (gather_calls letters 0 (-1)). fst call + snd call \<le> length letters"
    by blast
  then show ?thesis
    using register_all_first_calls [of "gather_calls letters 0 (-1)" letters]
    by (simp add: gather_words_calls)
qed

lemma word_letters_eq_iff:
  assumes "startLetterIndex a + lettersCount a \<le> length letters"
    and "startLetterIndex b + lettersCount b \<le> length letters"
  shows "word_letters letters a = word_letters letters b \<longleftrightarrow>
    lettersCount a = lettersCount b \<and>
    (\<forall>i<lettersCount a. letters ! (startLetterIndex a + i) = letters ! (startLetterIndex b + i))"
  using assms by (auto simp: word_letters_def list_eq_iff_nth_eq)

text \<open>
  Claim C8. \<^verbatim>\<open>registerWord\<close> keeps the invariant of the words collection: records with
  pairwise different letters, each with at least one entry. When a record has the letters
  of the new word, the call adds one to its entries and changes nothing else; when none
  has, the call appends a record with one entry. For records inside the letters, having
  the same letters is having the same length and the same letter at every position. The
  empty collection has the invariant, and so has the collection that the program
  builds from fewer than \<open>2 ^ 31\<close> letters.
\<close>

theorem registerWord_keeps_invariant:
  assumes "words_invariant letters words" and "firstLetter + count \<le> length letters"
  shows "words_invariant letters (registerWord letters words firstLetter count) \<and>
    (\<forall>k<length words.
       word_letters letters (words ! k) = take count (drop firstLetter letters) \<longrightarrow>
       registerWord letters words firstLetter count
         = words[k := (words ! k)\<lparr>entries := entries (words ! k) + 1\<rparr>]) \<and>
    ((\<forall>word\<in>set words. word_letters letters word \<noteq> take count (drop firstLetter letters)) \<longrightarrow>
       registerWord letters words firstLetter count
         = words @ [\<lparr>startLetterIndex = firstLetter, lettersCount = count, entries = 1\<rparr>]) \<and>
    (\<forall>a\<in>set words. \<forall>b\<in>set words.
       word_letters letters a = word_letters letters b \<longleftrightarrow>
       lettersCount a = lettersCount b \<and>
       (\<forall>i<lettersCount a.
          letters ! (startLetterIndex a + i) = letters ! (startLetterIndex b + i))) \<and>
    words_invariant letters [] \<and>
    (length letters < 2 ^ 31 \<longrightarrow> words_invariant letters (gather_words letters))"
proof (intro conjI allI impI ballI)
  let ?seg = "take count (drop firstLetter letters)"
  from assms(1) have range:
    "\<forall>word\<in>set words. startLetterIndex word + lettersCount word \<le> length letters"
    and dist: "distinct (map (word_letters letters) words)"
    by (simp_all add: words_invariant_def)
  show "words_invariant letters (registerWord letters words firstLetter count)"
    using assms by (rule registerWord_invariant)
  show "words_invariant letters []"
    by (simp add: words_invariant_def)
  show "words_invariant letters (gather_words letters)" if "length letters < 2 ^ 31"
    using gather_words_first_calls [OF that] by blast
  show "registerWord letters words firstLetter count
         = words @ [\<lparr>startLetterIndex = firstLetter, lettersCount = count, entries = 1\<rparr>]"
    if "\<forall>word\<in>set words. word_letters letters word \<noteq> ?seg"
    using assms(2) range that by (rule registerWord_new)
  show "registerWord letters words firstLetter count
         = words[k := (words ! k)\<lparr>entries := entries (words ! k) + 1\<rparr>]"
    if k: "k < length words" and eq: "word_letters letters (words ! k) = ?seg" for k
  proof -
    have "\<forall>j<k. word_letters letters (words ! j) \<noteq> ?seg"
    proof (intro allI impI notI)
      fix j assume j: "j < k" and "word_letters letters (words ! j) = ?seg"
      with eq k have "map (word_letters letters) words ! j = map (word_letters letters) words ! k"
        by simp
      with dist j k have "j = k"
        by (simp add: nth_eq_iff_index_eq del: nth_map)
      with j show False by simp
    qed
    with assms(2) range k eq show ?thesis by (rule registerWord_found)
  qed
  show "word_letters letters a = word_letters letters b \<longleftrightarrow>
       lettersCount a = lettersCount b \<and>
       (\<forall>i<lettersCount a.
          letters ! (startLetterIndex a + i) = letters ! (startLetterIndex b + i))"
    if "a \<in> set words" and "b \<in> set words" for a b
    using that range by (intro word_letters_eq_iff) simp_all
qed

theorem registerWord_keeps_invariant_witness:
  "words_invariant [97, 98, 32, 97, 98, 32, 99]
     [\<lparr>startLetterIndex = 0, lettersCount = 2, entries = 1\<rparr>] \<and>
   registerWord [97, 98, 32, 97, 98, 32, 99]
     [\<lparr>startLetterIndex = 0, lettersCount = 2, entries = 1\<rparr>] 3 2
     = [\<lparr>startLetterIndex = 0, lettersCount = 2, entries = 2\<rparr>] \<and>
   words_invariant [97, 98, 32, 97, 98, 32, 99]
     [\<lparr>startLetterIndex = 0, lettersCount = 2, entries = 2\<rparr>] \<and>
   registerWord [97, 98, 32, 97, 98, 32, 99]
     [\<lparr>startLetterIndex = 0, lettersCount = 2, entries = 2\<rparr>] 6 1
     = [\<lparr>startLetterIndex = 0, lettersCount = 2, entries = 2\<rparr>,
        \<lparr>startLetterIndex = 6, lettersCount = 1, entries = 1\<rparr>] \<and>
   words_invariant [97, 98, 32, 97, 98, 32, 99]
     [\<lparr>startLetterIndex = 0, lettersCount = 2, entries = 2\<rparr>,
      \<lparr>startLetterIndex = 6, lettersCount = 1, entries = 1\<rparr>]"
proof -
  let ?letters = "[97, 98, 32, 97, 98, 32, 99] :: u32 list"
  let ?w1 = "[\<lparr>startLetterIndex = 0, lettersCount = 2, entries = 1\<rparr>]"
  let ?w2 = "[\<lparr>startLetterIndex = 0, lettersCount = 2, entries = 2\<rparr>]"
  have inv1: "words_invariant ?letters ?w1"
    by (simp add: words_invariant_def)
  have r1: "registerWord ?letters ?w1 3 2 = ?w2"
    by code_simp
  have r2: "registerWord ?letters ?w2 6 1
      = ?w2 @ [\<lparr>startLetterIndex = 6, lettersCount = 1, entries = 1\<rparr>]"
    by code_simp
  have inv2: "words_invariant ?letters ?w2"
    using registerWord_keeps_invariant [of ?letters ?w1 3 2] inv1 r1 by simp
  have inv3: "words_invariant ?letters (?w2 @ [\<lparr>startLetterIndex = 6, lettersCount = 1, entries = 1\<rparr>])"
    using registerWord_keeps_invariant [of ?letters ?w2 6 1] inv2 r2 by simp
  from inv1 r1 inv2 r2 inv3 show ?thesis by simp
qed

section \<open>Sorting\<close>

text \<open>The comparator is a strict order, total on records with different letters.\<close>

lemma lexicographical_compare_Cons:
  "lexicographical_compare (x # xs) (y # ys) \<longleftrightarrow>
     x < y \<or> (x = y \<and> lexicographical_compare xs ys)"
proof (cases "x < y")
  case True
  then show ?thesis by simp
next
  case False
  show ?thesis
  proof (cases "y < x")
    case True
    then have "x \<noteq> y" by blast
    with True False show ?thesis by simp
  next
    case nlt: False
    with False have "x = y" by (simp only: not_less order_antisym)
    with False show ?thesis by simp
  qed
qed

lemma lexicographical_compare_Nil [simp]:
  "lexicographical_compare [] ys \<longleftrightarrow> ys \<noteq> []"
  "\<not> lexicographical_compare xs []"
  by (cases ys, simp_all) (cases xs, simp_all)

declare lexicographical_compare.simps [simp del]

lemma lexicographical_compare_irrefl: "\<not> lexicographical_compare xs xs"
  by (induction xs) (simp_all add: lexicographical_compare_Cons)

lemma lexicographical_compare_trans:
  "lexicographical_compare xs ys \<Longrightarrow> lexicographical_compare ys zs \<Longrightarrow>
   lexicographical_compare xs zs"
proof (induction xs arbitrary: ys zs)
  case Nil
  then show ?case by (cases zs) simp_all
next
  case (Cons x xs)
  from Cons.prems obtain y ys' where ys: "ys = y # ys'" by (cases ys) simp_all
  from Cons.prems ys obtain z zs' where zs: "zs = z # zs'" by (cases zs) simp_all
  from Cons.prems ys zs have
    xy: "x < y \<or> (x = y \<and> lexicographical_compare xs ys')" and
    yz: "y < z \<or> (y = z \<and> lexicographical_compare ys' zs')"
    by (simp_all only: lexicographical_compare_Cons)
  from xy yz consider "x < z" | "x = z" "lexicographical_compare xs ys'"
    "lexicographical_compare ys' zs'"
    using less_trans [of x y z] by blast
  then show ?case
  proof cases
    case 1
    with zs show ?thesis by (simp only: lexicographical_compare_Cons) blast
  next
    case 2
    from 2(2,3) have "lexicographical_compare xs zs'" by (rule Cons.IH)
    with 2(1) zs show ?thesis by (simp only: lexicographical_compare_Cons) blast
  qed
qed

lemma lexicographical_compare_total:
  "xs \<noteq> ys \<Longrightarrow> lexicographical_compare xs ys \<or> lexicographical_compare ys xs"
proof (induction xs arbitrary: ys)
  case Nil
  then show ?case by simp
next
  case (Cons x xs)
  show ?case
  proof (cases ys)
    case Nil
    then show ?thesis by simp
  next
    case ys: (Cons y ys')
    consider "x < y" | "y < x" | "x = y" by (rule linorder_cases)
    then show ?thesis
    proof cases
      case 3
      with Cons.prems ys have "xs \<noteq> ys'" by simp
      then have "lexicographical_compare xs ys' \<or> lexicographical_compare ys' xs"
        by (rule Cons.IH)
      with 3 ys show ?thesis by (simp only: lexicographical_compare_Cons) blast
    qed (simp_all only: ys lexicographical_compare_Cons, blast+)
  qed
qed

lemma compare_words_irrefl: "\<not> compare_words letters a a"
  by (simp add: compare_words_def lexicographical_compare_irrefl)

lemma compare_words_trans:
  assumes "compare_words letters a b" and "compare_words letters b c"
  shows "compare_words letters a c"
proof (cases "entries a = entries b")
  case ab: True
  show ?thesis
  proof (cases "entries b = entries c")
    case True
    with ab assms show ?thesis
      by (simp add: compare_words_def) (rule lexicographical_compare_trans)
  next
    case False
    with ab assms show ?thesis by (simp add: compare_words_def)
  qed
next
  case ab: False
  show ?thesis
  proof (cases "entries b = entries c")
    case True
    with ab assms show ?thesis by (simp add: compare_words_def)
  next
    case False
    with ab assms have "entries c < entries b" "entries b < entries a"
      by (simp_all add: compare_words_def)
    then have "entries c < entries a" by (rule less_trans)
    then show ?thesis by (simp add: compare_words_def)
  qed
qed

lemma compare_words_total:
  assumes "word_letters letters a \<noteq> word_letters letters b"
  shows "compare_words letters a b \<or> compare_words letters b a"
proof (cases "entries a = entries b")
  case True
  with lexicographical_compare_total [OF assms] show ?thesis
    by (simp add: compare_words_def)
next
  case False
  then have "entries a < entries b \<or> entries b < entries a" by (simp only: neq_iff)
  with False show ?thesis by (simp add: compare_words_def) blast
qed

lemma distinct_insert_word:
  "distinct (insert_word letters w xs) \<longleftrightarrow> w \<notin> set xs \<and> distinct xs"
  by (induction xs) (auto simp: set_insert_word)

lemma distinct_sort_words: "distinct words \<Longrightarrow> distinct (sort_words letters words)"
proof (induction words)
  case Nil
  show ?case by (simp add: sort_words_def)
next
  case (Cons w words)
  then have "distinct (foldr (insert_word letters) words [])"
    and "w \<notin> set (foldr (insert_word letters) words [])"
    using set_sort_words [of letters words] by (simp_all add: sort_words_def)
  then show ?case by (simp add: sort_words_def distinct_insert_word)
qed

lemma insert_word_ordered:
  "sorted_wrt (\<lambda>a b. \<not> compare_words letters b a) xs \<Longrightarrow>
   sorted_wrt (\<lambda>a b. \<not> compare_words letters b a) (insert_word letters w xs)"
proof (induction xs)
  case Nil
  show ?case by simp
next
  case (Cons x xs)
  show ?case
  proof (cases "compare_words letters w x")
    case True
    have "\<not> compare_words letters z w" if "z \<in> set (x # xs)" for z
    proof
      assume "compare_words letters z w"
      from this True have zx: "compare_words letters z x" by (rule compare_words_trans)
      show False
      proof (cases "z = x")
        case True
        with zx show False by (simp add: compare_words_irrefl)
      next
        case False
        with that Cons.prems zx show False by auto
      qed
    qed
    with True Cons.prems show ?thesis by auto
  next
    case False
    from Cons have "sorted_wrt (\<lambda>a b. \<not> compare_words letters b a) (insert_word letters w xs)"
      by simp
    with False Cons.prems show ?thesis by (auto simp: set_insert_word)
  qed
qed

lemma sort_words_ordered:
  "sorted_wrt (\<lambda>a b. \<not> compare_words letters b a) (sort_words letters words)"
proof (induction words)
  case Nil
  show ?case by (simp add: sort_words_def)
next
  case (Cons w words)
  then have "sorted_wrt (\<lambda>a b. \<not> compare_words letters b a)
      (insert_word letters w (foldr (insert_word letters) words []))"
    unfolding sort_words_def by (rule insert_word_ordered)
  then show ?case by (simp add: sort_words_def)
qed

lemma ordered_unique:
  assumes total: "\<And>a b. a \<in> set xs \<Longrightarrow> b \<in> set xs \<Longrightarrow> a \<noteq> b \<Longrightarrow> R a b \<or> R b a"
  shows "distinct xs \<Longrightarrow> distinct ys \<Longrightarrow> set xs = set ys \<Longrightarrow>
    sorted_wrt (\<lambda>a b. \<not> R b a) xs \<Longrightarrow> sorted_wrt (\<lambda>a b. \<not> R b a) ys \<Longrightarrow> xs = ys"
  using total
proof (induction xs arbitrary: ys)
  case Nil
  then show ?case by simp
next
  case (Cons x xs)
  from Cons.prems(3) obtain y ys' where ys: "ys = y # ys'" by (cases ys) auto
  have "x = y"
  proof (rule ccontr)
    assume neq: "x \<noteq> y"
    with Cons.prems(3) ys have "x \<in> set ys'" and "y \<in> set xs" by auto
    with Cons.prems(4,5) ys have "\<not> R x y" and "\<not> R y x" by auto
    moreover from Cons.prems(3) ys have "x \<in> set (x # xs)" "y \<in> set (x # xs)" by auto
    then have "R x y \<or> R y x" using neq by (rule Cons.prems(6))
    ultimately show False by blast
  qed
  moreover from this Cons.prems(1,2,3) ys have "set xs = set ys'" by auto
  with Cons.prems ys have "xs = ys'"
    by (intro Cons.IH) auto
  ultimately show ?case using ys by simp
qed

text \<open>
  What \<^verbatim>\<open>std::sort\<close> promises determines its result on the records of the program: a
  list with the same records, none twice, in which no record is before one that the
  comparator puts before it, is the list that \<open>sort_words\<close> returns.
\<close>

lemma sorted_permutation_unique:
  assumes "distinct (map (word_letters letters) words)"
    and "distinct ys" and "set ys = set words"
    and "sorted_wrt (\<lambda>a b. \<not> compare_words letters b a) ys"
  shows "ys = sort_words letters words"
proof (rule ordered_unique [where R = "compare_words letters"])
  fix a b assume "a \<in> set ys" "b \<in> set ys" "a \<noteq> b"
  with assms(1,3) have "word_letters letters a \<noteq> word_letters letters b"
    by (auto simp: distinct_map inj_on_def)
  then show "compare_words letters a b \<or> compare_words letters b a"
    by (rule compare_words_total)
next
  from assms(1) have "distinct words" by (simp add: distinct_map)
  then show "distinct (sort_words letters words)" by (rule distinct_sort_words)
  show "set ys = set (sort_words letters words)"
    using assms(3) by (simp add: set_sort_words)
  show "sorted_wrt (\<lambda>a b. \<not> compare_words letters b a) (sort_words letters words)"
    by (rule sort_words_ordered)
qed (use assms in simp_all)

section \<open>The output\<close>

lemma Main_success:
  assumes "argc run = 3" and "input_file run = Some input" and "output_opens run"
    and "ReadStreamToBuffer input (heap run) = Returns (Some buffer)"
    and "ReadUtfLetters buffer (indeterminate run) [] [] = (True, letters, lettersInfos)"
  shows "Main run = Returns (NoError, concat (map (write_word buffer lettersInfos)
           (sort_words (lower_case letters) (gather_words (lower_case letters)))))"
  using assms by (simp add: Main_def Let_def)

text \<open>
  On an input of fewer than \<open>2 ^ 31\<close> letters, the output is the lines of the sorted
  records, and the line of a record is its count, a space, the bytes of the input at the
  spans that the decoder recorded for the letters of the record, in order, and a line
  feed. The record lies inside the recorded spans, and it refers to the first call of
  \<^verbatim>\<open>registerWord\<close> that registered its folded letters: neither later occurrences nor the
  sorting change the start and the length of a record.
\<close>

lemma output_of_first_calls:
  assumes "argc run = 3" and "input_file run = Some input" and "output_opens run"
    and "ReadStreamToBuffer input (heap run) = Returns (Some buffer)"
    and "ReadUtfLetters buffer (indeterminate run) [] [] = (True, letters, lettersInfos)"
    and "length letters < 2 ^ 31"
  shows "Main run = Returns (NoError, concat (map (write_word buffer lettersInfos)
           (sort_words (lower_case letters) (gather_words (lower_case letters))))) \<and>
    (\<forall>word\<in>set (sort_words (lower_case letters) (gather_words (lower_case letters))).
       write_word buffer lettersInfos word =
         decimal (entries word) @ [32] @
         concat (map (letter_bytes buffer)
           (take (lettersCount word) (drop (startLetterIndex word) lettersInfos))) @ [10] \<and>
       startLetterIndex word + lettersCount word \<le> length lettersInfos \<and>
       first_call (lower_case letters) (gather_calls (lower_case letters) 0 (-1)) word)"
proof (intro conjI ballI)
  let ?folded = "lower_case letters"
  show "Main run = Returns (NoError, concat (map (write_word buffer lettersInfos)
           (sort_words ?folded (gather_words ?folded))))"
    using assms(1-5) by (rule Main_success)
  fix word assume "word \<in> set (sort_words ?folded (gather_words ?folded))"
  then have word: "word \<in> set (gather_words ?folded)"
    by (simp add: set_sort_words)
  from assms(6) have small: "length ?folded < 2 ^ 31"
    by (simp add: lower_case_def)
  from assms(5) have "length lettersInfos = length letters"
    by (simp add: ReadUtfLetters_def ReadUtfLetters_loop_lengths)
  then have len: "length lettersInfos = length ?folded"
    by (simp add: lower_case_def)
  from gather_words_first_calls [OF small] word
  have inv: "words_invariant ?folded (gather_words ?folded)"
    and first: "first_call ?folded (gather_calls ?folded 0 (-1)) word"
    by blast+
  from inv word len show range: "startLetterIndex word + lettersCount word \<le> length lettersInfos"
    by (simp add: words_invariant_def)
  then show "write_word buffer lettersInfos word =
         decimal (entries word) @ [32] @
         concat (map (letter_bytes buffer)
           (take (lettersCount word) (drop (startLetterIndex word) lettersInfos))) @ [10]"
    by (simp add: write_word_def word_bytes_spans)
  from first show "first_call ?folded (gather_calls ?folded 0 (-1)) word" .
qed

text \<open>
  Claim C2 at a file of 256 bytes: \<open>0xBF\<close>, 253 bytes \<open>0x80\<close>, \<open>0x81\<close> and \<open>0xA1\<close>. The first
  byte leaves the byte count unassigned; when the indeterminate count is 256, the decoder
  reads the whole file as one letter, from byte 0 to byte 256, whose value 97 comes from
  the last two bytes, and records a span of 0 bytes for it. The letter is the only word.
  Its line is the count 1, a space and a line feed: none of the 256 bytes of the word is
  written.
\<close>

theorem word_bytes_lost:
  "length (0xBF # replicate 253 0x80 @ [0x81, 0xA1] :: u8 list) = 256 \<and>
   ReadUtfLetter (0xBF # replicate 253 0x80 @ [0x81, 0xA1]) 0 256 0 = (True, 256, 97) \<and>
   ReadUtfLetters (0xBF # replicate 253 0x80 @ [0x81, 0xA1]) (\<lambda>_. (256, 0)) [] []
     = (True, [97], [\<lparr>bufferOffset = 0, bytesCount = 0\<rparr>]) \<and>
   gather_words (lower_case [97]) = [\<lparr>startLetterIndex = 0, lettersCount = 1, entries = 1\<rparr>] \<and>
   Main (run_on (0xBF # replicate 253 0x80 @ [0x81, 0xA1]) (\<lambda>_. (256, 0)))
     = Returns (NoError, [49, 32, 10])"
  by code_simp

end
